theory Spec2Isabelle
  imports Complex_Main
begin

section \<open>TRICOT: trace interception and collection for the openai client\<close>

text \<open>
  The module \<^verbatim>\<open>tricot.py\<close> wraps the chat-completion entry point of the openai client
  (\<^verbatim>\<open>create_and_log\<close>), installs the wrapper (\<^verbatim>\<open>patch_openai\<close>) and directs the records of
  the logger named TRICOT to a file (\<^verbatim>\<open>new_log_file\<close>). The embedding below keeps the
  Python objects in an explicit store, so that copying, aliasing and in-place mutation are
  visible, and keeps the state of the logging library that the module reads and writes.
\<close>

subsection \<open>Python values, objects and exceptions\<close>

text \<open>
  Immutable values are kept inline; lists and dicts are mutable objects that live in the
  store and are referred to by address (\<open>PRef\<close>). Dict keys are strings, as in the
  JSON-shaped data the client exchanges; a dict keeps its insertion order.
  \<open>POpaque\<close> stands for any other immutable object, such as a complex number or a
  function: it cannot be subscripted, iterated or serialised to JSON, and \<^verbatim>\<open>deepcopy\<close>
  returns it as it is.
\<close>

datatype pyval =
    PNone
  | PBool bool
  | PInt int
  | PFloat rat
  | PStr string
  | POpaque nat
  | PRef nat

datatype pyobj =
    PList "pyval list"
  | PDict "(string \<times> pyval) list"

datatype exn =
    IndexError
  | KeyError
  | TypeError
  | ValueError
  | RecursionError
  | OSError
  | Raised string  \<comment> \<open>an exception raised by code outside the module (hook, client library)\<close>

type_synonym heap = "pyobj list"

text \<open>The part of the process that a hook or the client library may read and change.\<close>

record mem =
  heap :: heap
  clock :: rat  \<comment> \<open>what \<^verbatim>\<open>time.time()\<close> returns now\<close>

type_synonym kwargs = "(string \<times> pyval) list"
type_synonym hook = "pyval \<Rightarrow> mem \<Rightarrow> (exn + pyval) \<times> mem"
type_synonym api = "pyval \<Rightarrow> kwargs \<Rightarrow> mem \<Rightarrow> (exn + pyval) \<times> mem"

datatype json =
    JNull
  | JBool bool
  | JInt int
  | JFloat rat
  | JStr string
  | JArr "json list"
  | JObj "(string \<times> json) list"

subsection \<open>The logging library, as far as the module uses it\<close>

text \<open>
  A handler has an identity, a level and a destination. A logger has its own handlers, a
  level (0 is NOTSET) and the \<open>propagate\<close> flag. \<^verbatim>\<open>Logger.disabled\<close>, \<^verbatim>\<open>logging.disable\<close> and
  filters stay at their defaults and are not represented.
\<close>

record handler =
  hid :: nat
  hlevel :: nat
  target :: string

record logger =
  handlers :: "handler list"
  level :: nat
  propagate :: bool

text \<open>What an attribute of the openai module that the application calls is bound to.\<close>

datatype callsite =
    Original  \<comment> \<open>the function found there when \<^verbatim>\<open>tricot\<close> was imported\<close>
  | Patched "hook option"  \<comment> \<open>\<^verbatim>\<open>partial(create_and_log, edit_call=...)\<close>\<close>

record world =
  py :: mem
  tricot :: logger  \<comment> \<open>\<^verbatim>\<open>logging.getLogger("TRICOT")\<close>\<close>
  parents :: "logger list"  \<comment> \<open>its ancestors, nearest first, the root logger last\<close>
  sinks :: "string \<Rightarrow> json list"  \<comment> \<open>the lines each destination has received\<close>
  streams :: "nat list"  \<comment> \<open>the handlers whose stream is open, by identity\<close>
  next_hid :: nat  \<comment> \<open>identity of the next handler object\<close>
  emitted :: "json list"  \<comment> \<open>the messages passed to \<^verbatim>\<open>info\<close> on the TRICOT logger, in order\<close>
  ChatCompletion_create :: callsite  \<comment> \<open>\<^verbatim>\<open>openai.ChatCompletion.create\<close>\<close>
  chat_completions_create :: callsite  \<comment> \<open>\<^verbatim>\<open>openai.chat.completions.create\<close>\<close>

text \<open>What is fixed while the module runs.\<close>

record env =
  rlimit :: nat  \<comment> \<open>nesting depth at which the interpreter raises RecursionError\<close>
  OPENAI_IS_PRE_1_0_0 :: bool
  original_chat_completion_create :: api
  strftime :: "rat \<Rightarrow> string"  \<comment> \<open>\<^verbatim>\<open>time.strftime('%Y-%m-%d_%H-%M-%S')\<close> at a clock reading\<close>
  can_open :: "string \<Rightarrow> bool"  \<comment> \<open>whether \<^verbatim>\<open>open(path, 'a')\<close> succeeds\<close>
  callables :: "nat \<Rightarrow> hook option"
    \<comment> \<open>what calling the object \<open>POpaque i\<close> on a list of messages does, when it is callable\<close>

definition INFO :: nat where
  "INFO = 20"

text \<open>\<^verbatim>\<open>Logger.hasHandlers\<close>: walk up from the logger while \<open>propagate\<close> is set.\<close>

fun chain_hasHandlers :: "logger list \<Rightarrow> bool" where
  "chain_hasHandlers [] = False"
| "chain_hasHandlers (c # cs) =
     (if handlers c \<noteq> [] then True
      else if \<not> propagate c then False
      else chain_hasHandlers cs)"

definition hasHandlers :: "world \<Rightarrow> bool" where
  "hasHandlers w = chain_hasHandlers (tricot w # parents w)"

text \<open>\<^verbatim>\<open>Logger.callHandlers\<close>: the handlers a record of the logger is offered to.\<close>

fun chain_handlers :: "logger list \<Rightarrow> handler list" where
  "chain_handlers [] = []"
| "chain_handlers (c # cs) = handlers c @ (if propagate c then chain_handlers cs else [])"

text \<open>\<^verbatim>\<open>Logger.getEffectiveLevel\<close>: the first level that is set, going up.\<close>

fun chain_level :: "logger list \<Rightarrow> nat" where
  "chain_level [] = 0"
| "chain_level (c # cs) = (if level c \<noteq> 0 then level c else chain_level cs)"

definition isEnabledFor :: "nat \<Rightarrow> world \<Rightarrow> bool" where
  "isEnabledFor lvl w = (chain_level (tricot w # parents w) \<le> lvl)"

fun handle_all :: "nat \<Rightarrow> json \<Rightarrow> handler list \<Rightarrow> (string \<Rightarrow> json list) \<Rightarrow> (string \<Rightarrow> json list)" where
  "handle_all lvl line [] f = f"
| "handle_all lvl line (h # hs) f =
     handle_all lvl line hs
       (if hlevel h \<le> lvl then f(target h := f (target h) @ [line]) else f)"

definition logger_info :: "json \<Rightarrow> world \<Rightarrow> world" where
  "logger_info line w =
     (let w1 = w\<lparr>emitted := emitted w @ [line]\<rparr>
      in if isEnabledFor INFO w1
         then w1\<lparr>sinks := handle_all INFO line (chain_handlers (tricot w1 # parents w1)) (sinks w1)\<rparr>
         else w1)"

definition setLevel :: "nat \<Rightarrow> world \<Rightarrow> world" where
  "setLevel lvl w = w\<lparr>tricot := (tricot w)\<lparr>level := lvl\<rparr>\<rparr>"

text \<open>\<^verbatim>\<open>Logger.removeHandler\<close> takes the handler off the list; it does not close it.\<close>

definition removeHandler :: "handler \<Rightarrow> world \<Rightarrow> world" where
  "removeHandler h w = w\<lparr>tricot := (tricot w)\<lparr>handlers := remove1 h (handlers (tricot w))\<rparr>\<rparr>"

definition addHandler :: "handler \<Rightarrow> world \<Rightarrow> world" where
  "addHandler h w =
     (if h \<in> set (handlers (tricot w)) then w
      else w\<lparr>tricot := (tricot w)\<lparr>handlers := handlers (tricot w) @ [h]\<rparr>\<rparr>)"

text \<open>\<^verbatim>\<open>logging.FileHandler(path)\<close> opens the file for appending at once.\<close>

definition FileHandler :: "env \<Rightarrow> string \<Rightarrow> world \<Rightarrow> (exn + handler) \<times> world" where
  "FileHandler e path w =
     (if can_open e path
      then (Inr \<lparr>hid = next_hid w, hlevel = 0, target = path\<rparr>,
            w\<lparr>streams := streams w @ [next_hid w], next_hid := Suc (next_hid w)\<rparr>)
      else (Inl OSError, w))"

subsection \<open>\<^verbatim>\<open>new_log_file\<close>\<close>

text \<open>
  \<^verbatim>\<open>while logger.hasHandlers(): logger.removeHandler(logger.handlers[0])\<close>.
  Reading \<^verbatim>\<open>logger.handlers[0]\<close> on an empty list raises IndexError.
\<close>

function remove_handlers_loop :: "world \<Rightarrow> (exn + unit) \<times> world" where
  "remove_handlers_loop w =
     (if hasHandlers w
      then (case handlers (tricot w) of
              [] \<Rightarrow> (Inl IndexError, w)
            | h # _ \<Rightarrow> remove_handlers_loop (removeHandler h w))
      else (Inr (), w))"
  by pat_completeness auto
termination
  by (relation "measure (\<lambda>w. length (handlers (tricot w)))") (auto simp: removeHandler_def)

text \<open>Lines 104 and 105: the path given, or \<^verbatim>\<open>logs/{timestamp}.log\<close>.\<close>

definition log_path :: "env \<Rightarrow> string option \<Rightarrow> world \<Rightarrow> string" where
  "log_path e path w =
     (case path of
        None \<Rightarrow> ''logs/'' @ strftime e (clock (py w)) @ ''.log''
      | Some q \<Rightarrow> q)"

definition new_log_file :: "env \<Rightarrow> string option \<Rightarrow> world \<Rightarrow> (exn + unit) \<times> world" where
  "new_log_file e path w =
     (let p = log_path e path w;
          w1 = setLevel INFO w
      in case remove_handlers_loop w1 of
           (Inl err, w2) \<Rightarrow> (Inl err, w2)
         | (Inr _, w2) \<Rightarrow>
             (case FileHandler e p w2 of
                (Inl err, w3) \<Rightarrow> (Inl err, w3)
              | (Inr h, w3) \<Rightarrow> (Inr (), addHandler h w3)))"

subsection \<open>Builtins on stored objects\<close>

definition deref :: "heap \<Rightarrow> nat \<Rightarrow> pyobj option" where
  "deref h a = (if a < length h then Some (h ! a) else None)"

definition seq :: "exn + 'a \<Rightarrow> ('a \<Rightarrow> exn + 'b) \<Rightarrow> exn + 'b" where
  "seq r f = (case r of Inl x \<Rightarrow> Inl x | Inr a \<Rightarrow> f a)"

text \<open>\<^verbatim>\<open>x[key]\<close> with a string key: only a dict accepts it.\<close>

definition getitem_str :: "heap \<Rightarrow> pyval \<Rightarrow> string \<Rightarrow> exn + pyval" where
  "getitem_str h x k =
     (case x of
        PRef a \<Rightarrow>
          (case deref h a of
             Some (PDict kvs) \<Rightarrow> (case map_of kvs k of None \<Rightarrow> Inl KeyError | Some v \<Rightarrow> Inr v)
           | _ \<Rightarrow> Inl TypeError)
      | _ \<Rightarrow> Inl TypeError)"

text \<open>\<^verbatim>\<open>x[0]\<close>: the first element of a list or string; a dict has no key 0.\<close>

definition getitem_0 :: "heap \<Rightarrow> pyval \<Rightarrow> exn + pyval" where
  "getitem_0 h x =
     (case x of
        PRef a \<Rightarrow>
          (case deref h a of
             Some (PList []) \<Rightarrow> Inl IndexError
           | Some (PList (y # _)) \<Rightarrow> Inr y
           | Some (PDict _) \<Rightarrow> Inl KeyError
           | None \<Rightarrow> Inl TypeError)
      | PStr [] \<Rightarrow> Inl IndexError
      | PStr (c # _) \<Rightarrow> Inr (PStr [c])
      | _ \<Rightarrow> Inl TypeError)"

text \<open>Iterating a value, as the unpacking \<^verbatim>\<open>[*messages, ...]\<close> does.\<close>

definition iterate :: "heap \<Rightarrow> pyval \<Rightarrow> exn + pyval list" where
  "iterate h x =
     (case x of
        PRef a \<Rightarrow>
          (case deref h a of
             Some (PList xs) \<Rightarrow> Inr xs
           | Some (PDict kvs) \<Rightarrow> Inr (map (\<lambda>kv. PStr (fst kv)) kvs)
           | None \<Rightarrow> Inl TypeError)
      | PStr s \<Rightarrow> Inr (map (\<lambda>c. PStr [c]) s)
      | _ \<Rightarrow> Inl TypeError)"

text \<open>\<^verbatim>\<open>d[k] = v\<close> on the items of a dict: an existing key keeps its place.\<close>

fun dict_set :: "(string \<times> pyval) list \<Rightarrow> string \<Rightarrow> pyval \<Rightarrow> (string \<times> pyval) list" where
  "dict_set [] k v = [(k, v)]"
| "dict_set ((k', v') # kvs) k v =
     (if k' = k then (k, v) # kvs else (k', v') # dict_set kvs k v)"

text \<open>
  One element of the sequence form \<^verbatim>\<open>dict([[k, v], ...])\<close>: it must have exactly two
  items, the first one hashable. A pair whose key is hashable but not a string would give
  a dict outside this data model; it is resolved as TypeError.
\<close>

definition pair_of :: "heap \<Rightarrow> pyval \<Rightarrow> exn + string \<times> pyval" where
  "pair_of h x =
     (case iterate h x of
        Inl err \<Rightarrow> Inl err
      | Inr [k, v] \<Rightarrow> (case k of PStr s \<Rightarrow> Inr (s, v) | _ \<Rightarrow> Inl TypeError)
      | Inr _ \<Rightarrow> Inl ValueError)"

fun pairs_of :: "heap \<Rightarrow> pyval list \<Rightarrow> (string \<times> pyval) list \<Rightarrow> exn + (string \<times> pyval) list" where
  "pairs_of h [] acc = Inr acc"
| "pairs_of h (x # xs) acc =
     (case pair_of h x of
        Inl err \<Rightarrow> Inl err
      | Inr (k, v) \<Rightarrow> pairs_of h xs (dict_set acc k v))"

text \<open>
  \<^verbatim>\<open>dict(x)\<close>: a mapping gives its items (a shallow copy); any other iterable is read as
  a sequence of pairs. The result is a new dict object.
\<close>

definition dict_items :: "heap \<Rightarrow> pyval \<Rightarrow> exn + (string \<times> pyval) list" where
  "dict_items h x =
     (case x of
        PRef a \<Rightarrow>
          (case deref h a of
             Some (PDict kvs) \<Rightarrow> Inr kvs
           | Some (PList xs) \<Rightarrow> pairs_of h xs []
           | None \<Rightarrow> Inl TypeError)
      | PStr s \<Rightarrow> pairs_of h (map (\<lambda>c. PStr [c]) s) []
      | _ \<Rightarrow> Inl TypeError)"

definition dict_of :: "heap \<Rightarrow> pyval \<Rightarrow> exn + pyval \<times> heap" where
  "dict_of h x = seq (dict_items h x) (\<lambda>kvs. Inr (PRef (length h), h @ [PDict kvs]))"

subsection \<open>\<^verbatim>\<open>copy.deepcopy\<close>\<close>

text \<open>
  The memo maps the address of an object already met to the address of its copy, so shared
  and cyclic structure is copied once. The copy of a container is allocated empty, entered
  in the memo and then filled item by item. The first argument is the nesting depth left
  before the interpreter raises RecursionError.
\<close>

definition list_append :: "heap \<Rightarrow> nat \<Rightarrow> pyval \<Rightarrow> heap" where
  "list_append h y v = (case h ! y of PList ys \<Rightarrow> h[y := PList (ys @ [v])] | _ \<Rightarrow> h)"

definition dict_setitem :: "heap \<Rightarrow> nat \<Rightarrow> string \<Rightarrow> pyval \<Rightarrow> heap" where
  "dict_setitem h y k v = (case h ! y of PDict kvs \<Rightarrow> h[y := PDict (dict_set kvs k v)] | _ \<Rightarrow> h)"

function deepcopy :: "nat \<Rightarrow> pyval \<Rightarrow> (nat \<rightharpoonup> nat) \<times> heap \<Rightarrow> exn + pyval \<times> (nat \<rightharpoonup> nat) \<times> heap"
  and deepcopy_list :: "nat \<Rightarrow> pyval list \<Rightarrow> nat \<Rightarrow> (nat \<rightharpoonup> nat) \<times> heap \<Rightarrow> exn + (nat \<rightharpoonup> nat) \<times> heap"
  and deepcopy_dict :: "nat \<Rightarrow> (string \<times> pyval) list \<Rightarrow> nat \<Rightarrow> (nat \<rightharpoonup> nat) \<times> heap \<Rightarrow> exn + (nat \<rightharpoonup> nat) \<times> heap"
where
  "deepcopy 0 x (memo, h) = Inl RecursionError"
| "deepcopy (Suc n) (PRef a) (memo, h) =
     (case memo a of
        Some y \<Rightarrow> Inr (PRef y, memo, h)
      | None \<Rightarrow>
          (case deref h a of
             None \<Rightarrow> Inl TypeError
           | Some (PList xs) \<Rightarrow>
               (case deepcopy_list n xs (length h) (memo(a \<mapsto> length h), h @ [PList []]) of
                  Inl err \<Rightarrow> Inl err
                | Inr (memo', h') \<Rightarrow> Inr (PRef (length h), memo', h'))
           | Some (PDict kvs) \<Rightarrow>
               (case deepcopy_dict n kvs (length h) (memo(a \<mapsto> length h), h @ [PDict []]) of
                  Inl err \<Rightarrow> Inl err
                | Inr (memo', h') \<Rightarrow> Inr (PRef (length h), memo', h'))))"
| "deepcopy (Suc n) PNone (memo, h) = Inr (PNone, memo, h)"
| "deepcopy (Suc n) (PBool b) (memo, h) = Inr (PBool b, memo, h)"
| "deepcopy (Suc n) (PInt i) (memo, h) = Inr (PInt i, memo, h)"
| "deepcopy (Suc n) (PFloat r) (memo, h) = Inr (PFloat r, memo, h)"
| "deepcopy (Suc n) (PStr s) (memo, h) = Inr (PStr s, memo, h)"
| "deepcopy (Suc n) (POpaque i) (memo, h) = Inr (POpaque i, memo, h)"
| "deepcopy_list n [] y (memo, h) = Inr (memo, h)"
| "deepcopy_list n (x # xs) y (memo, h) =
     (case deepcopy n x (memo, h) of
        Inl err \<Rightarrow> Inl err
      | Inr (x', memo', h') \<Rightarrow> deepcopy_list n xs y (memo', list_append h' y x'))"
| "deepcopy_dict n [] y (memo, h) = Inr (memo, h)"
| "deepcopy_dict n ((k, v) # kvs) y (memo, h) =
     (case deepcopy n v (memo, h) of
        Inl err \<Rightarrow> Inl err
      | Inr (v', memo', h') \<Rightarrow> deepcopy_dict n kvs y (memo', dict_setitem h' y k v'))"
  by pat_completeness auto
termination
  by (relation "inv_image (less_than <*lex*> less_than)
        (\<lambda>t. case t of
                Inl (n, x, s) \<Rightarrow> (n, 0)
              | Inr (Inl (n, xs, y, s)) \<Rightarrow> (n, Suc (length xs))
              | Inr (Inr (n, kvs, y, s)) \<Rightarrow> (n, Suc (length kvs)))") auto

subsection \<open>\<^verbatim>\<open>json.dumps\<close>\<close>

text \<open>
  The result is kept as a JSON value; its rendering as one line of text is not modelled.
  The markers are the containers being serialised on the current path: meeting one again
  raises ValueError (circular reference). A value that JSON has no form for raises
  TypeError.
\<close>

function dumps :: "nat \<Rightarrow> heap \<Rightarrow> nat list \<Rightarrow> pyval \<Rightarrow> exn + json"
  and dumps_list :: "nat \<Rightarrow> heap \<Rightarrow> nat list \<Rightarrow> pyval list \<Rightarrow> exn + json list"
  and dumps_dict :: "nat \<Rightarrow> heap \<Rightarrow> nat list \<Rightarrow> (string \<times> pyval) list \<Rightarrow> exn + (string \<times> json) list"
where
  "dumps 0 h ms x = Inl RecursionError"
| "dumps (Suc n) h ms PNone = Inr JNull"
| "dumps (Suc n) h ms (PBool b) = Inr (JBool b)"
| "dumps (Suc n) h ms (PInt i) = Inr (JInt i)"
| "dumps (Suc n) h ms (PFloat r) = Inr (JFloat r)"
| "dumps (Suc n) h ms (PStr s) = Inr (JStr s)"
| "dumps (Suc n) h ms (POpaque i) = Inl TypeError"
| "dumps (Suc n) h ms (PRef a) =
     (if a \<in> set ms then Inl ValueError
      else case deref h a of
             None \<Rightarrow> Inl TypeError
           | Some (PList xs) \<Rightarrow>
               (case dumps_list n h (a # ms) xs of Inl err \<Rightarrow> Inl err | Inr js \<Rightarrow> Inr (JArr js))
           | Some (PDict kvs) \<Rightarrow>
               (case dumps_dict n h (a # ms) kvs of Inl err \<Rightarrow> Inl err | Inr kjs \<Rightarrow> Inr (JObj kjs)))"
| "dumps_list n h ms [] = Inr []"
| "dumps_list n h ms (x # xs) =
     (case dumps n h ms x of
        Inl err \<Rightarrow> Inl err
      | Inr j \<Rightarrow> (case dumps_list n h ms xs of Inl err \<Rightarrow> Inl err | Inr js \<Rightarrow> Inr (j # js)))"
| "dumps_dict n h ms [] = Inr []"
| "dumps_dict n h ms ((k, v) # kvs) =
     (case dumps n h ms v of
        Inl err \<Rightarrow> Inl err
      | Inr j \<Rightarrow> (case dumps_dict n h ms kvs of Inl err \<Rightarrow> Inl err | Inr kjs \<Rightarrow> Inr ((k, j) # kjs)))"
  by pat_completeness auto
termination
  by (relation "inv_image (less_than <*lex*> less_than)
        (\<lambda>t. case t of
                Inl (n, h, ms, x) \<Rightarrow> (n, 0)
              | Inr (Inl (n, h, ms, xs)) \<Rightarrow> (n, Suc (length xs))
              | Inr (Inr (n, h, ms, kvs)) \<Rightarrow> (n, Suc (length kvs)))") auto

subsection \<open>\<^verbatim>\<open>create_and_log\<close>\<close>

text \<open>
  Lines 64 to 66: with a hook, the messages are deep-copied and the hook is called on the
  copy; what it returns is what goes on. Without one the caller's messages go on. The
  objects that a failed copy has allocated cannot be reached and are left out.
\<close>

definition edit_messages :: "env \<Rightarrow> hook option \<Rightarrow> pyval \<Rightarrow> mem \<Rightarrow> (exn + pyval) \<times> mem" where
  "edit_messages e edit_call messages m =
     (case edit_call of
        None \<Rightarrow> (Inr messages, m)
      | Some f \<Rightarrow>
          (case deepcopy (rlimit e) messages (Map.empty, heap m) of
             Inl err \<Rightarrow> (Inl err, m)
           | Inr (c, memo, h1) \<Rightarrow> f c (m\<lparr>heap := h1\<rparr>)))"

text \<open>\<^verbatim>\<open>response["choices"][0]["message"]\<close>\<close>

definition top_message :: "heap \<Rightarrow> pyval \<Rightarrow> exn + pyval" where
  "top_message h response =
     seq (getitem_str h response ''choices'') (\<lambda>choices.
     seq (getitem_0 h choices) (\<lambda>choice.
     getitem_str h choice ''message''))"

text \<open>
  Line 73, \<^verbatim>\<open>[*messages, dict(response["choices"][0]["message"])]\<close>: the elements of the
  list display are evaluated from left to right, then the new list is allocated.
\<close>

definition trace_of :: "heap \<Rightarrow> pyval \<Rightarrow> pyval \<Rightarrow> exn + pyval \<times> heap" where
  "trace_of h messages response =
     seq (iterate h messages) (\<lambda>xs.
     seq (top_message h response) (\<lambda>msg.
     seq (dict_of h msg) (\<lambda>(d, h1).
     Inr (PRef (length h1), h1 @ [PList (xs @ [d])]))))"

text \<open>
  Lines 75 to 80: the dict display \<^verbatim>\<open>{"timestamp": now, "messages": messages}\<close> is a new
  object, which \<^verbatim>\<open>json.dumps\<close> serialises.
\<close>

definition json_dumps_record :: "env \<Rightarrow> heap \<Rightarrow> rat \<Rightarrow> pyval \<Rightarrow> (exn + json) \<times> heap" where
  "json_dumps_record e h now trace =
     (let h1 = h @ [PDict [(''timestamp'', PFloat now), (''messages'', trace)]]
      in (dumps (rlimit e) h1 [] (PRef (length h)), h1))"

definition create_and_log ::
    "env \<Rightarrow> hook option \<Rightarrow> pyval \<Rightarrow> kwargs \<Rightarrow> world \<Rightarrow> (exn + pyval) \<times> world" where
  "create_and_log e edit_call messages kw w =
     (case edit_messages e edit_call messages (py w) of
        (Inl err, m1) \<Rightarrow> (Inl err, w\<lparr>py := m1\<rparr>)
      | (Inr msgs, m1) \<Rightarrow>
          (let now = clock m1
           in case original_chat_completion_create e msgs kw m1 of
                (Inl err, m2) \<Rightarrow> (Inl err, w\<lparr>py := m2\<rparr>)
              | (Inr response, m2) \<Rightarrow>
                  (case trace_of (heap m2) msgs response of
                     Inl err \<Rightarrow> (Inl err, w\<lparr>py := m2\<rparr>)
                   | Inr (trace, h3) \<Rightarrow>
                       (case json_dumps_record e h3 now trace of
                          (Inl err, h4) \<Rightarrow> (Inl err, w\<lparr>py := m2\<lparr>heap := h4\<rparr>\<rparr>)
                        | (Inr line, h4) \<Rightarrow>
                            (Inr response, logger_info line (w\<lparr>py := m2\<lparr>heap := h4\<rparr>\<rparr>))))))"

subsection \<open>\<^verbatim>\<open>patch_openai\<close> and the call through the patched attribute\<close>






subsection \<open>Notions used to state the properties\<close>

text \<open>The values an object holds, and the addresses among them.\<close>

fun items :: "pyobj \<Rightarrow> pyval list" where
  "items (PList xs) = xs"
| "items (PDict kvs) = map snd kvs"

fun val_refs :: "pyval \<Rightarrow> nat list" where
  "val_refs (PRef a) = [a]"
| "val_refs v = []"

definition refs :: "pyobj \<Rightarrow> nat list" where
  "refs ob = concat (map val_refs (items ob))"

text \<open>
  A store of the interpreter has no dangling reference, and the keys of a dict are
  distinct.
\<close>

definition wf_val :: "nat \<Rightarrow> pyval \<Rightarrow> bool" where
  "wf_val n v = list_all (\<lambda>a. a < n) (val_refs v)"

fun wf_obj :: "nat \<Rightarrow> pyobj \<Rightarrow> bool" where
  "wf_obj n (PList xs) = list_all (wf_val n) xs"
| "wf_obj n (PDict kvs) = (list_all (wf_val n) (map snd kvs) \<and> distinct (map fst kvs))"

definition wf_heap :: "heap \<Rightarrow> bool" where
  "wf_heap h = list_all (wf_obj (length h)) h"

text \<open>The objects that can be reached from a value by following references.\<close>

inductive_set reach :: "heap \<Rightarrow> pyval \<Rightarrow> nat set" for h :: heap and v :: pyval where
  start: "v = PRef a \<Longrightarrow> a \<in> reach h v"
| step: "a \<in> reach h v \<Longrightarrow> deref h a = Some ob \<Longrightarrow> b \<in> set (refs ob) \<Longrightarrow> b \<in> reach h v"

text \<open>
  What a value looks like down to a given depth, with the objects it refers to written
  out in place: two values with the same unfolding at every depth cannot be told apart by
  reading them.
\<close>

datatype tree =
    TCut
  | TAtom pyval
  | TList "tree list"
  | TDict "(string \<times> tree) list"

fun unfold :: "nat \<Rightarrow> heap \<Rightarrow> pyval \<Rightarrow> tree" where
  "unfold 0 h v = TCut"
| "unfold (Suc n) h (PRef a) =
     (case deref h a of
        None \<Rightarrow> TCut
      | Some (PList xs) \<Rightarrow> TList (map (unfold n h) xs)
      | Some (PDict kvs) \<Rightarrow> TDict (map (\<lambda>kv. (fst kv, unfold n h (snd kv))) kvs))"
| "unfold (Suc n) h v = TAtom v"

text \<open>The JSON value that a Python value stands for, when it has one.\<close>

inductive json_of :: "heap \<Rightarrow> pyval \<Rightarrow> json \<Rightarrow> bool" for h :: heap where
  jnull: "json_of h PNone JNull"
| jbool: "json_of h (PBool b) (JBool b)"
| jint: "json_of h (PInt i) (JInt i)"
| jfloat: "json_of h (PFloat r) (JFloat r)"
| jstr: "json_of h (PStr s) (JStr s)"
| jarr: "deref h a = Some (PList xs) \<Longrightarrow> list_all2 (json_of h) xs js \<Longrightarrow> json_of h (PRef a) (JArr js)"
| jobj: "deref h a = Some (PDict kvs) \<Longrightarrow> map fst kjs = map fst kvs \<Longrightarrow>
         list_all2 (json_of h) (map snd kvs) (map snd kjs) \<Longrightarrow> json_of h (PRef a) (JObj kjs)"

text \<open>
  A hook that works in place on its argument: it may allocate, and it may change the
  objects that can be reached from the list it is given, and no other.
\<close>

definition hook_confined :: "hook \<Rightarrow> bool" where
  "hook_confined f =
     (\<forall>c m. length (heap m) \<le> length (heap (snd (f c m))) \<and>
            (\<forall>a<length (heap m). a \<notin> reach (heap m) c \<longrightarrow> heap (snd (f c m)) ! a = heap m ! a))"

text \<open>A client library that reads its arguments and allocates its response.\<close>

definition api_allocates :: "api \<Rightarrow> bool" where
  "api_allocates g = (\<forall>msgs kw m. \<exists>ext. heap (snd (g msgs kw m)) = heap m @ ext)"

subsection \<open>Notions used in the proofs about \<^verbatim>\<open>deepcopy\<close>\<close>

text \<open>Replacing each reference by the address of its copy.\<close>

definition subst :: "(nat \<rightharpoonup> nat) \<Rightarrow> pyval \<Rightarrow> pyval" where
  "subst memo v = (case v of PRef a \<Rightarrow> (case memo a of Some y \<Rightarrow> PRef y | None \<Rightarrow> v) | _ \<Rightarrow> v)"

fun map_obj :: "(pyval \<Rightarrow> pyval) \<Rightarrow> pyobj \<Rightarrow> pyobj" where
  "map_obj f (PList xs) = PList (map f xs)"
| "map_obj f (PDict kvs) = PDict (map (\<lambda>kv. (fst kv, f (snd kv))) kvs)"

text \<open>The object at \<open>y\<close> is the finished copy of the object at \<open>a\<close> of the store \<open>h0\<close>.\<close>

definition copied :: "heap \<Rightarrow> (nat \<rightharpoonup> nat) \<Rightarrow> heap \<Rightarrow> nat \<Rightarrow> nat \<Rightarrow> bool" where
  "copied h0 memo h a y =
     (h ! y = map_obj (subst memo) (h0 ! a) \<and> set (refs (h0 ! a)) \<subseteq> dom memo)"

text \<open>
  The invariant of a copy of the store \<open>h0\<close> in progress: the store \<open>h0\<close> is still there,
  the memo sends its objects to new ones, and every copy is finished but those of the
  objects in \<open>P\<close>, which are being filled.
\<close>

definition copying :: "heap \<Rightarrow> nat set \<Rightarrow> (nat \<rightharpoonup> nat) \<Rightarrow> heap \<Rightarrow> bool" where
  "copying h0 P memo h =
     (length h0 \<le> length h \<and> (\<forall>i<length h0. h ! i = h0 ! i) \<and>
      (\<forall>a y. memo a = Some y \<longrightarrow>
          a < length h0 \<and> length h0 \<le> y \<and> y < length h \<and> (a \<notin> P \<longrightarrow> copied h0 memo h a y)))"

subsection \<open>Sample runs\<close>

text \<open>
  A client library that answers every request with one choice, the assistant message
  \<^verbatim>\<open>{"role": "assistant", "content": content}\<close>, and takes two seconds.
\<close>

definition sample_api :: "pyval \<Rightarrow> api" where
  "sample_api content msgs kw m =
     (Inr (PRef (length (heap m) + 3)),
      m\<lparr>heap := heap m @
           [PDict [(''role'', PStr ''assistant''), (''content'', content)],
            PDict [(''message'', PRef (length (heap m)))],
            PList [PRef (length (heap m) + 1)],
            PDict [(''choices'', PRef (length (heap m) + 2))]],
        clock := clock m + 2\<rparr>)"

text \<open>A client library whose response has no choice.\<close>

definition empty_api :: api where
  "empty_api msgs kw m =
     (Inr (PRef (length (heap m) + 1)),
      m\<lparr>heap := heap m @ [PList [], PDict [(''choices'', PRef (length (heap m)))]],
        clock := clock m + 2\<rparr>)"

text \<open>A client library that fails.\<close>

definition failing_api :: api where
  "failing_api msgs kw m = (Inl (Raised ''APIConnectionError''), m\<lparr>clock := clock m + 2\<rparr>)"

definition sample_env :: "api \<Rightarrow> env" where
  "sample_env g =
     \<lparr>rlimit = 10, OPENAI_IS_PRE_1_0_0 = True, original_chat_completion_create = g,
      strftime = (\<lambda>t. ''2024-01-01_00-00-00''), can_open = (\<lambda>p. take 5 p = ''logs/''),
      callables = (\<lambda>i. None)\<rparr>"

text \<open>
  A process in which the caller holds the list \<^verbatim>\<open>[{"role": "user", "content": "hi"}]\<close> at
  address 1, nothing is patched and no handler is attached anywhere.
\<close>

definition sample_world :: world where
  "sample_world =
     \<lparr>py = \<lparr>heap = [PDict [(''role'', PStr ''user''), (''content'', PStr ''hi'')], PList [PRef 0]],
             clock = 5\<rparr>,
      tricot = \<lparr>handlers = [], level = 0, propagate = True\<rparr>,
      parents = [\<lparr>handlers = [], level = 30, propagate = True\<rparr>],
      sinks = (\<lambda>d. []), streams = [], next_hid = 0, emitted = [],
      ChatCompletion_create = Original, chat_completions_create = Original\<rparr>"

text \<open>The same process, where the content of the caller's message has no JSON form.\<close>

definition opaque_world :: world where
  "opaque_world =
     sample_world\<lparr>py := \<lparr>heap = [PDict [(''role'', PStr ''user''), (''content'', POpaque 0)],
                                   PList [PRef 0]],
                           clock = 5\<rparr>\<rparr>"

text \<open>
  A hook that appends a system message to the list it is given, in place, returns that
  list and takes one second.
\<close>

definition append_system :: hook where
  "append_system c m =
     (case c of
        PRef a \<Rightarrow>
          (Inr c,
           m\<lparr>heap := list_append (heap m @ [PDict [(''role'', PStr ''system''), (''content'', PStr ''be brief'')]])
                       a (PRef (length (heap m))),
             clock := clock m + 1\<rparr>)
      | _ \<Rightarrow> (Inl (Raised ''AttributeError''), m))"

text \<open>A hook that fails.\<close>

definition failing_hook :: hook where
  "failing_hook c m = (Inl (Raised ''HookError''), m)"

text \<open>The same process after \<^verbatim>\<open>logging.basicConfig()\<close>: the root logger has a handler.\<close>

definition console :: handler where
  "console = \<lparr>hid = 0, hlevel = 0, target = ''stderr''\<rparr>"

definition rooted_world :: world where
  "rooted_world =
     sample_world\<lparr>parents := [\<lparr>handlers = [console], level = 30, propagate = True\<rparr>],
                  streams := [0], next_hid := 1\<rparr>"

text \<open>And with \<^verbatim>\<open>logging.getLogger("TRICOT").propagate = False\<close>.\<close>

definition quiet_world :: world where
  "quiet_world = rooted_world\<lparr>tricot := \<lparr>handlers = [], level = 0, propagate = False\<rparr>\<rparr>"

text \<open>The sample process after \<^verbatim>\<open>new_log_file("logs/a.log")\<close>, and after a second call.\<close>

definition logging_to_a :: world where
  "logging_to_a = snd (new_log_file (sample_env empty_api) (Some ''logs/a.log'') sample_world)"



section \<open>Properties\<close>

subsection \<open>The log destination\<close>

declare remove_handlers_loop.simps [simp del]

lemma remove_handlers_loop_eq:
  "remove_handlers_loop w =
     (if propagate (tricot w) \<and> chain_hasHandlers (parents w) then Inl IndexError else Inr (),
      w\<lparr>tricot := (tricot w)\<lparr>handlers := []\<rparr>\<rparr>)"
proof (induction w rule: remove_handlers_loop.induct)
  case (1 w)
  show ?case
  proof (cases "handlers (tricot w)")
    case Nil
    then show ?thesis
      by (subst remove_handlers_loop.simps) (simp add: hasHandlers_def)
  next
    case (Cons h hs)
    then have hh: "hasHandlers w" by (simp add: hasHandlers_def)
    from "1.IH"[OF hh Cons] Cons hh show ?thesis
      by (subst remove_handlers_loop.simps) (simp add: removeHandler_def)
  qed
qed


lemma chain_hasHandlers_reach:
  "i < length cs \<Longrightarrow> handlers (cs ! i) \<noteq> [] \<Longrightarrow> \<forall>j<i. propagate (cs ! j) \<Longrightarrow> chain_hasHandlers cs"
proof (induction cs arbitrary: i)
  case Nil
  then show ?case by simp
next
  case (Cons c cs)
  show ?case
  proof (cases i)
    case 0
    with Cons.prems show ?thesis by simp
  next
    case (Suc k)
    with Cons.prems have "k < length cs" "handlers (cs ! k) \<noteq> []" "\<forall>j<k. propagate (cs ! j)" "propagate c"
      by auto
    with Cons.IH[of k] show ?thesis by simp
  qed
qed

lemma new_log_file_eq:
  "new_log_file e path w =
     (if propagate (tricot w) \<and> chain_hasHandlers (parents w)
      then (Inl IndexError, w\<lparr>tricot := (tricot w)\<lparr>handlers := [], level := INFO\<rparr>\<rparr>)
      else if can_open e (log_path e path w)
      then (Inr (), w\<lparr>tricot := (tricot w)\<lparr>handlers := [\<lparr>hid = next_hid w, hlevel = 0, target = log_path e path w\<rparr>], level := INFO\<rparr>,
                    streams := streams w @ [next_hid w], next_hid := Suc (next_hid w)\<rparr>)
      else (Inl OSError, w\<lparr>tricot := (tricot w)\<lparr>handlers := [], level := INFO\<rparr>\<rparr>))"
  by (simp add: new_log_file_def remove_handlers_loop_eq setLevel_def FileHandler_def addHandler_def Let_def)






text \<open>
  Claim C7. When the loop that removes the handlers has ended normally and the file cannot
  be opened, \<^verbatim>\<open>new_log_file\<close> raises the error of \<^verbatim>\<open>FileHandler\<close>, attaches nothing and
  opens no stream: the logger is left without any handler of its own, the earlier ones
  having been removed already.
\<close>

theorem new_log_file_open_fails:
  assumes "\<not> can_open e (log_path e path w)"
    and "fst (remove_handlers_loop (setLevel INFO w)) = Inr ()"
  shows "fst (new_log_file e path w) = Inl OSError \<and>
         handlers (tricot (snd (new_log_file e path w))) = [] \<and>
         streams (snd (new_log_file e path w)) = streams w"
  using assms
  by (simp add: new_log_file_eq remove_handlers_loop_eq setLevel_def split: if_splits)

text \<open>
  The process logs to \<^verbatim>\<open>logs/a.log\<close>; a call with a path that cannot be opened fails and
  leaves the logger with no handler.
\<close>

theorem new_log_file_open_fails_witness:
  "map target (handlers (tricot logging_to_a)) = [''logs/a.log''] \<and>
   fst (new_log_file (sample_env empty_api) (Some ''/nonexistent/b.log'') logging_to_a) = Inl OSError \<and>
   handlers (tricot (snd (new_log_file (sample_env empty_api) (Some ''/nonexistent/b.log'') logging_to_a))) = []"
proof -
  have h1: "\<not> can_open (sample_env empty_api)
               (log_path (sample_env empty_api) (Some ''/nonexistent/b.log'') logging_to_a)"
    by (simp add: sample_env_def log_path_def)
  have h2: "fst (remove_handlers_loop (setLevel INFO logging_to_a)) = Inr ()"
    by (simp add: remove_handlers_loop_eq setLevel_def logging_to_a_def new_log_file_eq
        sample_world_def sample_env_def log_path_def)
  have h3: "map target (handlers (tricot logging_to_a)) = [''logs/a.log'']"
    by (simp add: logging_to_a_def new_log_file_eq sample_world_def sample_env_def log_path_def)
  show ?thesis using h3 new_log_file_open_fails[OF h1 h2] by simp
qed

text \<open>
  Claim C10, as the code has it. When the TRICOT logger has no handler of its own, some
  ancestor has one, and \<open>propagate\<close> is set on the logger and on every ancestor below
  that one (the default), the loop of \<^verbatim>\<open>new_log_file\<close> raises IndexError: nothing is
  attached and no file is opened.
\<close>

theorem new_log_file_index_error:
  assumes "handlers (tricot w) = []"
    and "i < length (parents w)" and "handlers (parents w ! i) \<noteq> []"
    and "propagate (tricot w)" and "\<forall>j<i. propagate (parents w ! j)"
  shows "fst (new_log_file e path w) = Inl IndexError \<and>
         handlers (tricot (snd (new_log_file e path w))) = [] \<and>
         streams (snd (new_log_file e path w)) = streams w \<and>
         next_hid (snd (new_log_file e path w)) = next_hid w"
proof -
  have "chain_hasHandlers (parents w)"
    using assms(2,3,5) by (rule chain_hasHandlers_reach)
  with assms(4) show ?thesis by (simp add: new_log_file_eq)
qed

text \<open>The root logger has a handler, as after \<^verbatim>\<open>logging.basicConfig()\<close>.\<close>

theorem new_log_file_index_error_witness:
  "handlers (tricot rooted_world) = [] \<and>
   fst (new_log_file (sample_env empty_api) (Some ''logs/run.log'') rooted_world) = Inl IndexError \<and>
   handlers (tricot (snd (new_log_file (sample_env empty_api) (Some ''logs/run.log'') rooted_world))) = []"
proof -
  have h: "handlers (tricot rooted_world) = []" "(0::nat) < length (parents rooted_world)"
    "handlers (parents rooted_world ! 0) \<noteq> []" "propagate (tricot rooted_world)"
    "\<forall>j<0::nat. propagate (parents rooted_world ! j)"
    by (simp_all add: rooted_world_def sample_world_def console_def)
  show ?thesis
    using h(1) new_log_file_index_error[OF h, of "sample_env empty_api" "Some ''logs/run.log''"]
    by simp
qed

text \<open>
  Claim C10 as stated does not ask for \<open>propagate\<close>. With it cleared on the TRICOT
  logger, \<^verbatim>\<open>hasHandlers\<close> does not look at the root logger: the call returns and attaches
  the file.
\<close>

theorem new_log_file_ancestor_counterexample:
  "handlers (tricot quiet_world) = [] \<and>
   handlers (parents quiet_world ! 0) = [console] \<and>
   fst (new_log_file (sample_env empty_api) (Some ''logs/run.log'') quiet_world) = Inr () \<and>
   map target (handlers (tricot (snd (new_log_file (sample_env empty_api) (Some ''logs/run.log'') quiet_world)))) = [''logs/run.log'']"
  by (simp add: new_log_file_eq quiet_world_def rooted_world_def sample_world_def
      sample_env_def log_path_def)

subsection \<open>The wrapper\<close>

lemma emitted_logger_info: "emitted (logger_info line w) = emitted w @ [line]"
  by (simp add: logger_info_def Let_def)

lemma py_logger_info: "py (logger_info line w) = py w"
  by (simp add: logger_info_def Let_def)

lemma trace_of_heap:
  "trace_of h msgs r = Inr (t, h3) \<Longrightarrow> \<exists>ext. h3 = h @ ext"
  by (auto simp: trace_of_def seq_def dict_of_def split: sum.splits)

lemma json_dumps_record_heap:
  "snd (json_dumps_record e h now t) = h @ [PDict [(''timestamp'', PFloat now), (''messages'', t)]]"
  by (simp add: json_dumps_record_def Let_def)

lemma create_and_log_Inr:
  assumes "fst (create_and_log e hk messages kw w) = Inr r"
  obtains msgs m1 m2 t h3 line where
    "edit_messages e hk messages (py w) = (Inr msgs, m1)"
    "original_chat_completion_create e msgs kw m1 = (Inr r, m2)"
    "trace_of (heap m2) msgs r = Inr (t, h3)"
    "fst (json_dumps_record e h3 (clock m1) t) = Inr line"
    "snd (create_and_log e hk messages kw w) =
       logger_info line (w\<lparr>py := m2\<lparr>heap := snd (json_dumps_record e h3 (clock m1) t)\<rparr>\<rparr>)"
  using assms
  by (auto simp: create_and_log_def Let_def split: prod.splits sum.splits)

lemma create_and_log_Inl:
  assumes "fst (create_and_log e hk messages kw w) = Inl x"
  shows "emitted (snd (create_and_log e hk messages kw w)) = emitted w"
  using assms
  by (auto simp: create_and_log_def Let_def split: prod.splits sum.splits)

text \<open>
  Claim C1. Whatever hook is installed, none included: when the messages have been
  prepared, the underlying call has returned the response \<open>r\<close>, the trace has been built
  and the record has been serialised, \<^verbatim>\<open>create_and_log\<close> returns \<open>r\<close>, the very value the
  underlying call returned. The store the underlying call left is only extended, so the
  response object and all it refers to are as that call made them.
\<close>

theorem create_and_log_returns_response:
  assumes "edit_messages e hk messages (py w) = (Inr msgs, m1)"
    and "original_chat_completion_create e msgs kw m1 = (Inr r, m2)"
    and "trace_of (heap m2) msgs r = Inr (t, h3)"
    and "fst (json_dumps_record e h3 (clock m1) t) = Inr line"
  shows "fst (create_and_log e hk messages kw w) = Inr r \<and>
         (\<exists>ext. heap (py (snd (create_and_log e hk messages kw w))) = heap m2 @ ext) \<and>
         clock (py (snd (create_and_log e hk messages kw w))) = clock m2"
proof -
  from assms(3) obtain ext where "h3 = heap m2 @ ext" using trace_of_heap by blast
  with assms show ?thesis
    by (auto simp: create_and_log_def Let_def py_logger_info json_dumps_record_def
        split: prod.splits sum.splits)
qed

text \<open>
  Claim C2, as the code has it. A call of \<^verbatim>\<open>create_and_log\<close> that returns has passed exactly
  one record to the TRICOT logger; a call that raises has passed none, whatever raised:
  the deep copy, the hook, the underlying call, the extraction of the reply or the
  serialisation. An exception of the hook or of the underlying call is the exception of
  the call.
\<close>

theorem create_and_log_records:
  "(\<forall>r. fst (create_and_log e hk messages kw w) = Inr r \<longrightarrow>
      (\<exists>line. emitted (snd (create_and_log e hk messages kw w)) = emitted w @ [line])) \<and>
   (\<forall>x. fst (create_and_log e hk messages kw w) = Inl x \<longrightarrow>
      emitted (snd (create_and_log e hk messages kw w)) = emitted w) \<and>
   (\<forall>x. fst (edit_messages e hk messages (py w)) = Inl x \<longrightarrow>
      fst (create_and_log e hk messages kw w) = Inl x) \<and>
   (\<forall>msgs m1 x. edit_messages e hk messages (py w) = (Inr msgs, m1) \<longrightarrow>
      fst (original_chat_completion_create e msgs kw m1) = Inl x \<longrightarrow>
      fst (create_and_log e hk messages kw w) = Inl x)"
proof (intro conjI allI impI)
  fix r assume "fst (create_and_log e hk messages kw w) = Inr r"
  then show "\<exists>line. emitted (snd (create_and_log e hk messages kw w)) = emitted w @ [line]"
    by (elim create_and_log_Inr) (simp add: emitted_logger_info)
next
  fix x assume "fst (create_and_log e hk messages kw w) = Inl x"
  then show "emitted (snd (create_and_log e hk messages kw w)) = emitted w"
    by (rule create_and_log_Inl)
next
  fix x assume "fst (edit_messages e hk messages (py w)) = Inl x"
  then show "fst (create_and_log e hk messages kw w) = Inl x"
    by (auto simp: create_and_log_def split: prod.splits sum.splits)
next
  fix msgs m1 x
  assume "edit_messages e hk messages (py w) = (Inr msgs, m1)"
    "fst (original_chat_completion_create e msgs kw m1) = Inl x"
  then show "fst (create_and_log e hk messages kw w) = Inl x"
    by (auto simp: create_and_log_def Let_def split: prod.splits sum.splits)
qed

text \<open>
  Claim C8. When the response of the underlying call has an empty list of choices, the
  call raises and no record is logged. The exception is the IndexError of
  \<^verbatim>\<open>response["choices"][0]\<close>, unless unpacking the messages has failed just before.
\<close>

theorem create_and_log_no_choice:
  assumes "edit_messages e hk messages (py w) = (Inr msgs, m1)"
    and "original_chat_completion_create e msgs kw m1 = (Inr r, m2)"
    and "getitem_str (heap m2) r ''choices'' = Inr (PRef c)"
    and "deref (heap m2) c = Some (PList [])"
  shows "fst (create_and_log e hk messages kw w) =
           Inl (case iterate (heap m2) msgs of Inl x \<Rightarrow> x | Inr xs \<Rightarrow> IndexError) \<and>
         emitted (snd (create_and_log e hk messages kw w)) = emitted w"
  using assms
  by (auto simp: create_and_log_def Let_def trace_of_def top_message_def seq_def getitem_0_def
      split: sum.splits)

lemma json_dumps_record_Inr:
  assumes "fst (json_dumps_record e h now t) = Inr line"
  shows "\<exists>j. line = JObj [(''timestamp'', JFloat now), (''messages'', j)]"
proof -
  from assms obtain n where n: "rlimit e = Suc n"
    by (cases "rlimit e") (auto simp: json_dumps_record_def Let_def)
  show ?thesis
  proof (cases n)
    case 0
    with assms n show ?thesis
      by (auto simp: json_dumps_record_def Let_def deref_def)
  next
    case (Suc k)
    with assms n show ?thesis
      by (auto simp: json_dumps_record_def Let_def deref_def split: sum.splits)
  qed
qed

text \<open>
  Claim C9, as the code has it. The timestamp of the record is the clock reading taken
  once the messages are prepared (after the hook has returned, when there is one) and
  before they are forwarded. Without a hook it is the time at which the call began.
\<close>

theorem create_and_log_timestamp:
  assumes "fst (create_and_log e hk messages kw w) = Inr r"
  shows "(\<exists>j. last (emitted (snd (create_and_log e hk messages kw w))) =
            JObj [(''timestamp'', JFloat (clock (snd (edit_messages e hk messages (py w))))),
                  (''messages'', j)]) \<and>
         (hk = None \<longrightarrow> clock (snd (edit_messages e hk messages (py w))) = clock (py w))"
proof -
  from assms obtain msgs m1 m2 t h3 line where
    a: "edit_messages e hk messages (py w) = (Inr msgs, m1)"
    and d: "fst (json_dumps_record e h3 (clock m1) t) = Inr line"
    and s: "snd (create_and_log e hk messages kw w) =
       logger_info line (w\<lparr>py := m2\<lparr>heap := snd (json_dumps_record e h3 (clock m1) t)\<rparr>\<rparr>)"
    by (rule create_and_log_Inr)
  from json_dumps_record_Inr[OF d] obtain j where
    "line = JObj [(''timestamp'', JFloat (clock m1)), (''messages'', j)]" ..
  with a s show ?thesis
    by (auto simp: emitted_logger_info edit_messages_def)
qed


text \<open>A call with the hook that appends a system message.\<close>

theorem create_and_log_returns_response_witness:
  "fst (create_and_log (sample_env (sample_api (PStr ''hello''))) (Some append_system) (PRef 1) []
     sample_world) = Inr (PRef 8)"
proof -
  define E where "E = sample_env (sample_api (PStr ''hello''))"
  define m1 where "m1 = snd (edit_messages E (Some append_system) (PRef 1) (py sample_world))"
  define m2 where "m2 = snd (original_chat_completion_create E (PRef 2) [] m1)"
  define h3 where "h3 = snd (projr (trace_of (heap m2) (PRef 2) (PRef 8)))"
  define line where "line = projr (fst (json_dumps_record E h3 (clock m1) (PRef 10)))"
  have h1: "edit_messages E (Some append_system) (PRef 1) (py sample_world) = (Inr (PRef 2), m1)"
    unfolding m1_def E_def by code_simp
  have h2: "original_chat_completion_create E (PRef 2) [] m1 = (Inr (PRef 8), m2)"
    unfolding m2_def m1_def E_def by code_simp
  have h3: "trace_of (heap m2) (PRef 2) (PRef 8) = Inr (PRef 10, h3)"
    unfolding h3_def m2_def m1_def E_def by code_simp
  have h4: "fst (json_dumps_record E h3 (clock m1) (PRef 10)) = Inr line"
    unfolding line_def h3_def m2_def m1_def E_def by code_simp
  from create_and_log_returns_response[OF h1 h2 h3 h4]
  show ?thesis unfolding E_def by (rule conjunct1)
qed

text \<open>A call that returns, a call whose underlying call fails, a call whose hook fails.\<close>

theorem create_and_log_records_witness:
  "length (emitted (snd (create_and_log (sample_env (sample_api (PStr ''hello'')))
       (Some append_system) (PRef 1) [] sample_world))) = 1 \<and>
   emitted (snd (create_and_log (sample_env failing_api) (Some append_system) (PRef 1) []
       sample_world)) = [] \<and>
   emitted (snd (create_and_log (sample_env (sample_api (PStr ''hello''))) (Some failing_hook)
       (PRef 1) [] sample_world)) = []"
proof -
  have e: "emitted sample_world = []" by (simp add: sample_world_def)
  have a: "fst (create_and_log (sample_env (sample_api (PStr ''hello''))) (Some append_system)
      (PRef 1) [] sample_world) = Inr (PRef 8)"
    by code_simp
  have b: "fst (create_and_log (sample_env failing_api) (Some append_system) (PRef 1) []
      sample_world) = Inl (Raised ''APIConnectionError'')"
    by code_simp
  have c: "fst (create_and_log (sample_env (sample_api (PStr ''hello''))) (Some failing_hook)
      (PRef 1) [] sample_world) = Inl (Raised ''HookError'')"
    by code_simp
  from a e create_and_log_records[of "sample_env (sample_api (PStr ''hello''))"
      "Some append_system" "PRef 1" "[]" sample_world]
  have 1: "length (emitted (snd (create_and_log (sample_env (sample_api (PStr ''hello'')))
       (Some append_system) (PRef 1) [] sample_world))) = 1"
    by auto
  from b e create_and_log_records[of "sample_env failing_api"
      "Some append_system" "PRef 1" "[]" sample_world]
  have 2: "emitted (snd (create_and_log (sample_env failing_api) (Some append_system) (PRef 1) []
       sample_world)) = []"
    by auto
  from c e create_and_log_records[of "sample_env (sample_api (PStr ''hello''))"
      "Some failing_hook" "PRef 1" "[]" sample_world]
  have 3: "emitted (snd (create_and_log (sample_env (sample_api (PStr ''hello''))) (Some failing_hook)
       (PRef 1) [] sample_world)) = []"
    by auto
  from 1 2 3 show ?thesis by simp
qed

text \<open>
  Claim C2 as stated promises one record whenever the underlying call succeeds. Here it
  succeeds, for a message whose content has no JSON form: \<^verbatim>\<open>json.dumps\<close> raises TypeError
  and no record is logged.
\<close>

theorem create_and_log_records_counterexample:
  "fst (original_chat_completion_create (sample_env (sample_api (PStr ''hello''))) (PRef 1) []
      (py opaque_world)) = Inr (PRef 5) \<and>
   fst (create_and_log (sample_env (sample_api (PStr ''hello''))) None (PRef 1) [] opaque_world) =
      Inl TypeError \<and>
   emitted (snd (create_and_log (sample_env (sample_api (PStr ''hello''))) None (PRef 1) []
      opaque_world)) = []"
  by code_simp

text \<open>A client library that answers \<^verbatim>\<open>{"choices": []}\<close>.\<close>

theorem create_and_log_no_choice_witness:
  "fst (create_and_log (sample_env empty_api) None (PRef 1) [] sample_world) = Inl IndexError \<and>
   emitted (snd (create_and_log (sample_env empty_api) None (PRef 1) [] sample_world)) = []"
proof -
  define m2 where "m2 = snd (empty_api (PRef 1) [] (py sample_world))"
  have h1: "edit_messages (sample_env empty_api) None (PRef 1) (py sample_world) =
      (Inr (PRef 1), py sample_world)"
    by (simp add: edit_messages_def)
  have h2: "original_chat_completion_create (sample_env empty_api) (PRef 1) [] (py sample_world) =
      (Inr (PRef 3), m2)"
    unfolding m2_def by code_simp
  have h3: "getitem_str (heap m2) (PRef 3) ''choices'' = Inr (PRef 2)"
    unfolding m2_def by code_simp
  have h4: "deref (heap m2) 2 = Some (PList [])"
    unfolding m2_def by code_simp
  have i: "iterate (heap m2) (PRef 1) = Inr [PRef 0]"
    unfolding m2_def by code_simp
  have e: "emitted sample_world = []" by (simp add: sample_world_def)
  from create_and_log_no_choice[OF h1 h2 h3 h4] i e show ?thesis by simp
qed

text \<open>Without a hook the call begins at 5 and the record says so.\<close>

theorem create_and_log_timestamp_witness:
  "fst (create_and_log (sample_env (sample_api (PStr ''hello''))) None (PRef 1) []
      sample_world) = Inr (PRef 5) \<and>
   (\<exists>j. last (emitted (snd (create_and_log (sample_env (sample_api (PStr ''hello''))) None
      (PRef 1) [] sample_world))) = JObj [(''timestamp'', JFloat 5), (''messages'', j)])"
proof -
  have a: "fst (create_and_log (sample_env (sample_api (PStr ''hello''))) None (PRef 1) []
      sample_world) = Inr (PRef 5)"
    by code_simp
  have c: "clock (snd (edit_messages (sample_env (sample_api (PStr ''hello''))) None
      (PRef 1) (py sample_world))) = 5"
    by code_simp
  note t = create_and_log_timestamp[OF a, THEN conjunct1, unfolded c]
  from a t show ?thesis by (rule conjI)
qed

text \<open>
  Claim C9 as stated gives the time at which the call began. The call begins at 5, the
  hook takes one second, and the record carries 6.
\<close>

theorem create_and_log_timestamp_counterexample:
  "clock (py sample_world) = 5 \<and>
   emitted (snd (create_and_log (sample_env (sample_api (PStr ''hello''))) (Some append_system)
      (PRef 1) [] sample_world)) =
     [JObj [(''timestamp'', JFloat 6),
            (''messages'',
             JArr [JObj [(''role'', JStr ''user''), (''content'', JStr ''hi'')],
                   JObj [(''role'', JStr ''system''), (''content'', JStr ''be brief'')],
                   JObj [(''role'', JStr ''assistant''), (''content'', JStr ''hello'')]])]]"
  by code_simp

subsection \<open>Installing the wrapper\<close>






lemma create_and_log_copy_raises:
  assumes "deepcopy (rlimit e) messages (Map.empty, heap (py w)) = Inl err"
  shows "create_and_log e (Some f) messages kw w = (Inl err, w)"
  using assms by (simp add: create_and_log_def edit_messages_def)

lemma create_and_log_hook_raises:
  assumes "deepcopy (rlimit e) messages (Map.empty, heap (py w)) = Inr (c, memo, hc)"
    and "f c ((py w)\<lparr>heap := hc\<rparr>) = (Inl x, m1)"
  shows "create_and_log e (Some f) messages kw w = (Inl x, w\<lparr>py := m1\<rparr>)"
  using assms by (simp add: create_and_log_def edit_messages_def)

lemma create_and_log_hook_forwards:
  assumes "deepcopy (rlimit e) messages (Map.empty, heap (py w)) = Inr (c, memo, hc)"
    and "f c ((py w)\<lparr>heap := hc\<rparr>) = (Inr fwd, m1)"
  shows "(\<forall>x m2. original_chat_completion_create e fwd kw m1 = (Inl x, m2) \<longrightarrow>
            create_and_log e (Some f) messages kw w = (Inl x, w\<lparr>py := m2\<rparr>)) \<and>
         (\<forall>r. fst (create_and_log e (Some f) messages kw w) = Inr r \<longrightarrow>
            fst (original_chat_completion_create e fwd kw m1) = Inr r)"
  using assms
  by (auto simp: create_and_log_def edit_messages_def Let_def split: prod.splits sum.splits)




subsection \<open>The deep copy\<close>

lemma subst_ext: "set (val_refs v) \<subseteq> dom memo \<Longrightarrow> memo \<subseteq>\<^sub>m memo' \<Longrightarrow> subst memo' v = subst memo v"
  by (cases v) (auto simp: subst_def map_le_def dom_def split: option.splits)

lemma refs_items: "set (refs ob) \<subseteq> D \<longleftrightarrow> (\<forall>v\<in>set (items ob). set (val_refs v) \<subseteq> D)"
  by (auto simp: refs_def)

lemma map_obj_ext:
  "set (refs ob) \<subseteq> dom memo \<Longrightarrow> memo \<subseteq>\<^sub>m memo' \<Longrightarrow> map_obj (subst memo') ob = map_obj (subst memo) ob"
  by (cases ob) (auto simp: refs_items subst_ext)

lemma copied_ext:
  "copied h0 memo h a y \<Longrightarrow> memo \<subseteq>\<^sub>m memo' \<Longrightarrow> h' ! y = h ! y \<Longrightarrow> copied h0 memo' h' a y"
  unfolding copied_def using map_obj_ext[of "h0 ! a" memo memo'] by (auto simp: map_le_def dom_def)

lemma prefix_from_nth:
  "length h \<le> length h' \<Longrightarrow> \<forall>i<length h. h' ! i = h ! i \<Longrightarrow> \<exists>ext. h' = h @ ext"
proof -
  assume a: "length h \<le> length h'" "\<forall>i<length h. h' ! i = h ! i"
  then have "take (length h) h' = h"
    by (intro nth_equalityI) auto
  then have "h' = h @ drop (length h) h'"
    by (metis append_take_drop_id)
  then show ?thesis ..
qed

lemma wf_heap_obj: "wf_heap h0 \<Longrightarrow> a < length h0 \<Longrightarrow> wf_obj (length h0) (h0 ! a)"
  by (simp add: wf_heap_def list_all_length)

lemma wf_obj_items: "wf_obj n ob \<Longrightarrow> v \<in> set (items ob) \<Longrightarrow> wf_val n v"
  by (cases ob) (auto simp: list_all_iff)

lemma list_append_nth:
  "y < length h \<Longrightarrow> h ! y = PList ys \<Longrightarrow> list_append h y v = h[y := PList (ys @ [v])]"
  by (simp add: list_append_def)

lemma dict_set_fresh: "k \<notin> fst ` set kvs \<Longrightarrow> dict_set kvs k v = kvs @ [(k, v)]"
  by (induction kvs) auto

lemma dict_setitem_nth:
  "y < length h \<Longrightarrow> h ! y = PDict kjs \<Longrightarrow> k \<notin> fst ` set kjs \<Longrightarrow>
   dict_setitem h y k v = h[y := PDict (kjs @ [(k, v)])]"
  by (simp add: dict_setitem_def dict_set_fresh)

lemma copying_alloc:
  assumes g: "copying h0 P memo h" and a: "a < length h0" "memo a = None"
  shows "copying h0 (insert a P) (memo(a \<mapsto> length h)) (h @ [ob])"
proof -
  have le: "memo \<subseteq>\<^sub>m memo(a \<mapsto> length h)"
    using a by (auto simp: map_le_def)
  show ?thesis
    unfolding copying_def
  proof (intro conjI allI impI)
    show "length h0 \<le> length (h @ [ob])" using g by (simp add: copying_def)
    show "\<And>i. i < length h0 \<Longrightarrow> (h @ [ob]) ! i = h0 ! i"
      using g by (simp add: copying_def nth_append)
  next
    fix b z assume m: "(memo(a \<mapsto> length h)) b = Some z"
    show "b < length h0" using m g a by (auto simp: copying_def split: if_splits)
    show "length h0 \<le> z" using m g a by (auto simp: copying_def split: if_splits)
    show "z < length (h @ [ob])" using m g a by (fastforce simp: copying_def split: if_splits)
    assume nb: "b \<notin> insert a P"
    then have mb: "memo b = Some z" using m by (auto split: if_splits)
    then have "copied h0 memo h b z" "z < length h" using g nb by (auto simp: copying_def)
    then show "copied h0 (memo(a \<mapsto> length h)) (h @ [ob]) b z"
      using copied_ext[OF _ le, of h0 h b z "h @ [ob]"] by (simp add: nth_append)
  qed
qed

lemma copying_update:
  assumes g: "copying h0 P memo h" and y: "length h0 \<le> y" "\<forall>b. memo b = Some y \<longrightarrow> b \<in> P"
  shows "copying h0 P memo (h[y := ob])"
  unfolding copying_def
proof (intro conjI allI impI)
  show "length h0 \<le> length (h[y := ob])" using g by (simp add: copying_def)
  show "\<And>i. i < length h0 \<Longrightarrow> h[y := ob] ! i = h0 ! i"
    using g y by (simp add: copying_def)
next
  fix b z assume m: "memo b = Some z"
  show "b < length h0" "length h0 \<le> z" "z < length (h[y := ob])"
    using m g by (auto simp: copying_def)
  assume nb: "b \<notin> P"
  then have "z \<noteq> y" using m y by auto
  moreover have "copied h0 memo h b z" using g m nb by (auto simp: copying_def)
  ultimately show "copied h0 memo (h[y := ob]) b z"
    by (simp add: copied_def)
qed

lemma copying_done:
  assumes g: "copying h0 (insert a P) memo h" and m: "memo a = Some y" and c: "copied h0 memo h a y"
  shows "copying h0 P memo h"
  using assms unfolding copying_def by (metis insert_iff option.inject)



lemma deepcopy_copying:
  assumes wf: "wf_heap h0"
  shows "deepcopy n x s = Inr (x', s') \<Longrightarrow> copying h0 P (fst s) (snd s) \<Longrightarrow> wf_val (length h0) x \<Longrightarrow>
           copying h0 P (fst s') (snd s') \<and> (\<exists>ext. snd s' = snd s @ ext) \<and> fst s \<subseteq>\<^sub>m fst s' \<and>
           (\<forall>b z. fst s' b = Some z \<longrightarrow> fst s b = None \<longrightarrow> length (snd s) \<le> z) \<and>
           x' = subst (fst s') x \<and> set (val_refs x) \<subseteq> dom (fst s')"
    and "deepcopy_list n xs y s = Inr s' \<Longrightarrow> copying h0 P (fst s) (snd s) \<Longrightarrow>
           list_all (wf_val (length h0)) xs \<Longrightarrow>
           length h0 \<le> y \<Longrightarrow> y < length (snd s) \<Longrightarrow> snd s ! y = PList ys \<Longrightarrow>
           (\<forall>b. fst s b = Some y \<longrightarrow> b \<in> P) \<Longrightarrow>
           copying h0 P (fst s') (snd s') \<and> length (snd s) \<le> length (snd s') \<and>
           (\<forall>i<length (snd s). i \<noteq> y \<longrightarrow> snd s' ! i = snd s ! i) \<and> fst s \<subseteq>\<^sub>m fst s' \<and>
           (\<forall>b z. fst s' b = Some z \<longrightarrow> fst s b = None \<longrightarrow> length (snd s) \<le> z) \<and>
           snd s' ! y = PList (ys @ map (subst (fst s')) xs) \<and>
           (\<forall>x\<in>set xs. set (val_refs x) \<subseteq> dom (fst s'))"
    and "deepcopy_dict n kvs y s = Inr s' \<Longrightarrow> copying h0 P (fst s) (snd s) \<Longrightarrow>
           list_all (wf_val (length h0)) (map snd kvs) \<Longrightarrow>
           length h0 \<le> y \<Longrightarrow> y < length (snd s) \<Longrightarrow> snd s ! y = PDict kjs \<Longrightarrow>
           distinct (map fst kjs @ map fst kvs) \<Longrightarrow>
           (\<forall>b. fst s b = Some y \<longrightarrow> b \<in> P) \<Longrightarrow>
           copying h0 P (fst s') (snd s') \<and> length (snd s) \<le> length (snd s') \<and>
           (\<forall>i<length (snd s). i \<noteq> y \<longrightarrow> snd s' ! i = snd s ! i) \<and> fst s \<subseteq>\<^sub>m fst s' \<and>
           (\<forall>b z. fst s' b = Some z \<longrightarrow> fst s b = None \<longrightarrow> length (snd s) \<le> z) \<and>
           snd s' ! y = PDict (kjs @ map (\<lambda>kv. (fst kv, subst (fst s') (snd kv))) kvs) \<and>
           (\<forall>kv\<in>set kvs. set (val_refs (snd kv)) \<subseteq> dom (fst s'))"
proof (induction n x s and n xs y s and n kvs y s arbitrary: x' s' P and s' P ys and s' P kjs
       rule: deepcopy_deepcopy_list_deepcopy_dict.induct)
  case (1 x memo h)
  then show ?case by simp
next
  case (2 n a memo h)
  have g: "copying h0 P memo h" and a: "a < length h0"
    using "2.prems" by (auto simp: wf_val_def)
  show ?case
  proof (cases "memo a")
    case (Some y)
    with "2.prems"(1) have "x' = PRef y" "s' = (memo, h)" by auto
    with g Some show ?thesis by (auto simp: subst_def)
  next
    case None
    have ah: "a < length h" "h ! a = h0 ! a" using g a by (auto simp: copying_def)
    then have dr: "deref h a = Some (h0 ! a)" by (simp add: deref_def)
    have le1: "memo \<subseteq>\<^sub>m memo(a \<mapsto> length h)" using None by (auto simp: map_le_def)
    have fresh_y: "\<forall>b. (memo(a \<mapsto> length h)) b = Some (length h) \<longrightarrow> b \<in> insert a P"
      using g by (auto simp: copying_def split: if_splits)
    have n0: "length h0 \<le> length h" using g by (simp add: copying_def)
    show ?thesis
    proof (cases "h0 ! a")
      case (PList xs)
      obtain memo' h' where s': "s' = (memo', h')" by (cases s')
      from PList "2.prems"(1) None dr have
        dl: "deepcopy_list n xs (length h) (memo(a \<mapsto> length h), h @ [PList []]) = Inr (memo', h')"
        and res: "x' = PRef (length h)" "s' = (memo', h')"
        unfolding s' by (auto split: sum.splits)
      have g1: "copying h0 (insert a P) (memo(a \<mapsto> length h)) (h @ [PList []])"
        using copying_alloc[OF g a None] .
      have wfxs: "list_all (wf_val (length h0)) xs"
        using wf_heap_obj[OF wf a] PList by simp
      have B: "copying h0 (insert a P) memo' h'" "length (h @ [PList []]) \<le> length h'"
        "\<forall>i<length (h @ [PList []]). i \<noteq> length h \<longrightarrow> h' ! i = (h @ [PList []]) ! i"
        "memo(a \<mapsto> length h) \<subseteq>\<^sub>m memo'"
        "\<forall>b z. memo' b = Some z \<longrightarrow> (memo(a \<mapsto> length h)) b = None \<longrightarrow> length (h @ [PList []]) \<le> z"
        "h' ! length h = PList ([] @ map (subst memo') xs)"
        "\<forall>x\<in>set xs. set (val_refs x) \<subseteq> dom memo'"
      proof -
        have ylt: "length h < length (h @ [PList []])" by simp
        have ynth: "(h @ [PList []]) ! length h = PList []" by simp
        note ih = "2.IH"(1)[OF None dr[unfolded PList] refl, of "(memo', h')" "insert a P" "[]",
            unfolded fst_conv snd_conv, OF dl g1 wfxs n0 ylt ynth fresh_y]
        from ih show "copying h0 (insert a P) memo' h'" "length (h @ [PList []]) \<le> length h'"
          "\<forall>i<length (h @ [PList []]). i \<noteq> length h \<longrightarrow> h' ! i = (h @ [PList []]) ! i"
          "memo(a \<mapsto> length h) \<subseteq>\<^sub>m memo'"
          "\<forall>b z. memo' b = Some z \<longrightarrow> (memo(a \<mapsto> length h)) b = None \<longrightarrow> length (h @ [PList []]) \<le> z"
          "h' ! length h = PList ([] @ map (subst memo') xs)"
          "\<forall>x\<in>set xs. set (val_refs x) \<subseteq> dom memo'"
          by blast+
      qed
      have ma: "memo' a = Some (length h)" using B(4) by (auto simp: map_le_def dom_def)
      have "copied h0 memo' h' a (length h)"
        using B(6) B(7) PList by (auto simp: copied_def refs_items)
      then have c0: "copying h0 P memo' h'" using copying_done[OF B(1) ma] by simp
      have c1: "\<exists>ext. h' = h @ ext"
        using B(2) B(3) by (intro prefix_from_nth) (auto simp: nth_append)
      have c3: "memo \<subseteq>\<^sub>m memo'" using le1 B(4) by (rule map_le_trans)
      have c4: "\<forall>b z. memo' b = Some z \<longrightarrow> memo b = None \<longrightarrow> length h \<le> z"
      proof (intro allI impI)
        fix b z assume b: "memo' b = Some z" "memo b = None"
        show "length h \<le> z"
        proof (cases "b = a")
          case True
          with ma b show ?thesis by simp
        next
          case False
          with b B(5) have "length (h @ [PList []]) \<le> z" by auto
          then show ?thesis by simp
        qed
      qed
      have c5: "x' = subst memo' (PRef a)" using res ma by (simp add: subst_def)
      have c6: "set (val_refs (PRef a)) \<subseteq> dom memo'" using ma by auto
      show ?thesis using c0 c1 c3 c4 c5 c6 res by simp
    next
      case (PDict kvs)
      obtain memo' h' where s': "s' = (memo', h')" by (cases s')
      from PDict "2.prems"(1) None dr have
        dl: "deepcopy_dict n kvs (length h) (memo(a \<mapsto> length h), h @ [PDict []]) = Inr (memo', h')"
        and res: "x' = PRef (length h)" "s' = (memo', h')"
        unfolding s' by (auto split: sum.splits)
      have g1: "copying h0 (insert a P) (memo(a \<mapsto> length h)) (h @ [PDict []])"
        using copying_alloc[OF g a None] .
      have wfxs: "list_all (wf_val (length h0)) (map snd kvs)" "distinct (map fst kvs)"
        using wf_heap_obj[OF wf a] PDict by simp_all
      have B: "copying h0 (insert a P) memo' h'" "length (h @ [PDict []]) \<le> length h'"
        "\<forall>i<length (h @ [PDict []]). i \<noteq> length h \<longrightarrow> h' ! i = (h @ [PDict []]) ! i"
        "memo(a \<mapsto> length h) \<subseteq>\<^sub>m memo'"
        "\<forall>b z. memo' b = Some z \<longrightarrow> (memo(a \<mapsto> length h)) b = None \<longrightarrow> length (h @ [PDict []]) \<le> z"
        "h' ! length h = PDict ([] @ map (\<lambda>kv. (fst kv, subst memo' (snd kv))) kvs)"
        "\<forall>kv\<in>set kvs. set (val_refs (snd kv)) \<subseteq> dom memo'"
      proof -
        have ylt: "length h < length (h @ [PDict []])" by simp
        have ynth: "(h @ [PDict []]) ! length h = PDict []" by simp
        have dist: "distinct (map fst ([] :: (string \<times> pyval) list) @ map fst kvs)"
          using wfxs(2) by simp
        note ih = "2.IH"(2)[OF None dr[unfolded PDict] refl, of "(memo', h')" "insert a P" "[]",
            unfolded fst_conv snd_conv, OF dl g1 wfxs(1) n0 ylt ynth dist fresh_y]
        from ih show "copying h0 (insert a P) memo' h'" "length (h @ [PDict []]) \<le> length h'"
          "\<forall>i<length (h @ [PDict []]). i \<noteq> length h \<longrightarrow> h' ! i = (h @ [PDict []]) ! i"
          "memo(a \<mapsto> length h) \<subseteq>\<^sub>m memo'"
          "\<forall>b z. memo' b = Some z \<longrightarrow> (memo(a \<mapsto> length h)) b = None \<longrightarrow> length (h @ [PDict []]) \<le> z"
          "h' ! length h = PDict ([] @ map (\<lambda>kv. (fst kv, subst memo' (snd kv))) kvs)"
          "\<forall>kv\<in>set kvs. set (val_refs (snd kv)) \<subseteq> dom memo'"
          by blast+
      qed
      have ma: "memo' a = Some (length h)" using B(4) by (auto simp: map_le_def dom_def)
      have "copied h0 memo' h' a (length h)"
        using B(6) B(7) PDict by (auto simp: copied_def refs_items)
      then have c0: "copying h0 P memo' h'" using copying_done[OF B(1) ma] by simp
      have c1: "\<exists>ext. h' = h @ ext"
        using B(2) B(3) by (intro prefix_from_nth) (auto simp: nth_append)
      have c3: "memo \<subseteq>\<^sub>m memo'" using le1 B(4) by (rule map_le_trans)
      have c4: "\<forall>b z. memo' b = Some z \<longrightarrow> memo b = None \<longrightarrow> length h \<le> z"
      proof (intro allI impI)
        fix b z assume b: "memo' b = Some z" "memo b = None"
        show "length h \<le> z"
        proof (cases "b = a")
          case True
          with ma b show ?thesis by simp
        next
          case False
          with b B(5) have "length (h @ [PDict []]) \<le> z" by auto
          then show ?thesis by simp
        qed
      qed
      have c5: "x' = subst memo' (PRef a)" using res ma by (simp add: subst_def)
      have c6: "set (val_refs (PRef a)) \<subseteq> dom memo'" using ma by auto
      show ?thesis using c0 c1 c3 c4 c5 c6 res by simp
    qed
  qed
next
  case (3 n memo h)
  then show ?case by (auto simp: subst_def)
next
  case (4 n b memo h)
  then show ?case by (auto simp: subst_def)
next
  case (5 n i memo h)
  then show ?case by (auto simp: subst_def)
next
  case (6 n r memo h)
  then show ?case by (auto simp: subst_def)
next
  case (7 n s memo h)
  then show ?case by (auto simp: subst_def)
next
  case (8 n i memo h)
  then show ?case by (auto simp: subst_def)
next
  case (9 n y memo h)
  then show ?case by auto
next
  case (10 n x xs y memo h)
  from "10.prems"(1) obtain x1 memo1 h1 where
    dc: "deepcopy n x (memo, h) = Inr (x1, memo1, h1)" and
    rest: "deepcopy_list n xs y (memo1, list_append h1 y x1) = Inr s'"
    by (auto split: sum.splits)
  obtain memo' h' where s': "s' = (memo', h')" by (cases s')
  have wfx: "wf_val (length h0) x" and wfxs: "list_all (wf_val (length h0)) xs"
    using "10.prems"(3) by auto
  have g: "copying h0 P memo h" and y: "length h0 \<le> y" "y < length h" "h ! y = PList ys"
    and yP: "\<forall>b. memo b = Some y \<longrightarrow> b \<in> P"
    using "10.prems" by auto
  have A: "copying h0 P memo1 h1" "\<exists>ext. h1 = h @ ext" "memo \<subseteq>\<^sub>m memo1"
    "\<forall>b z. memo1 b = Some z \<longrightarrow> memo b = None \<longrightarrow> length h \<le> z"
    "x1 = subst memo1 x" "set (val_refs x) \<subseteq> dom memo1"
    using "10.IH"(1)[of x1 "(memo1, h1)" P] dc g wfx by auto
  from A(2) obtain ext where h1: "h1 = h @ ext" ..
  have y1: "y < length h1" "h1 ! y = PList ys" using y h1 by (auto simp: nth_append)
  have h2: "list_append h1 y x1 = h1[y := PList (ys @ [x1])]"
    using y1 by (rule list_append_nth)
  have yP1: "\<forall>b. memo1 b = Some y \<longrightarrow> b \<in> P"
  proof (intro allI impI)
    fix b assume b: "memo1 b = Some y"
    show "b \<in> P"
    proof (cases "memo b")
      case None
      with A(4) b have "length h \<le> y" by blast
      with y show ?thesis by simp
    next
      case (Some z)
      with A(3) have "memo1 b = Some z" by (auto simp: map_le_def dom_def)
      with b Some yP show ?thesis by auto
    qed
  qed
  have g2: "copying h0 P memo1 (h1[y := PList (ys @ [x1])])"
    using copying_update[OF A(1) y(1) yP1] .
  have B: "copying h0 P memo' h'" "length h1 \<le> length h'"
    "\<forall>i<length h1. i \<noteq> y \<longrightarrow> h' ! i = (h1[y := PList (ys @ [x1])]) ! i" "memo1 \<subseteq>\<^sub>m memo'"
    "\<forall>b z. memo' b = Some z \<longrightarrow> memo1 b = None \<longrightarrow> length h1 \<le> z"
    "h' ! y = PList ((ys @ [x1]) @ map (subst memo') xs)"
    "\<forall>x\<in>set xs. set (val_refs x) \<subseteq> dom memo'"
    using "10.IH"(2)[OF dc refl refl, of s' P "ys @ [x1]"] rest g2 wfxs y(1) y1 yP1
    unfolding h2 s' by auto
  have c1: "length h \<le> length h'" using B(2) h1 by simp
  have c2: "\<forall>i<length h. i \<noteq> y \<longrightarrow> h' ! i = h ! i"
    using B(3) h1 by (auto simp: nth_append)
  have c3: "memo \<subseteq>\<^sub>m memo'" using A(3) B(4) by (rule map_le_trans)
  have c4: "\<forall>b z. memo' b = Some z \<longrightarrow> memo b = None \<longrightarrow> length h \<le> z"
  proof (intro allI impI)
    fix b z assume b: "memo' b = Some z" "memo b = None"
    show "length h \<le> z"
    proof (cases "memo1 b")
      case None
      with B(5) b have "length h1 \<le> z" by blast
      with h1 show ?thesis by simp
    next
      case (Some z1)
      with B(4) have "memo' b = Some z1" by (auto simp: map_le_def dom_def)
      with b Some A(4) show ?thesis by auto
    qed
  qed
  have "subst memo' x = subst memo1 x" using subst_ext[OF A(6) B(4)] .
  with A(5) B(6) have c5: "h' ! y = PList (ys @ map (subst memo') (x # xs))" by simp
  have "dom memo1 \<subseteq> dom memo'" using B(4) by (rule map_le_implies_dom_le)
  with A(6) B(7) have c6: "\<forall>v\<in>set (x # xs). set (val_refs v) \<subseteq> dom memo'" by auto
  show ?case using B(1) c1 c2 c3 c4 c5 c6 unfolding s' by simp
next
  case (11 n y memo h)
  then show ?case by auto
next
  case (12 n k v kvs y memo h)
  from "12.prems"(1) obtain x1 memo1 h1 where
    dc: "deepcopy n v (memo, h) = Inr (x1, memo1, h1)" and
    rest: "deepcopy_dict n kvs y (memo1, dict_setitem h1 y k x1) = Inr s'"
    by (auto split: sum.splits)
  obtain memo' h' where s': "s' = (memo', h')" by (cases s')
  have wfx: "wf_val (length h0) v" and wfxs: "list_all (wf_val (length h0)) (map snd kvs)"
    using "12.prems"(3) by auto
  have g: "copying h0 P memo h" and y: "length h0 \<le> y" "y < length h" "h ! y = PDict kjs"
    and yP: "\<forall>b. memo b = Some y \<longrightarrow> b \<in> P"
    and dist: "k \<notin> fst ` set kjs" "distinct (map fst (kjs @ [(k, x1)]) @ map fst kvs)"
    using "12.prems" by auto
  have A: "copying h0 P memo1 h1" "\<exists>ext. h1 = h @ ext" "memo \<subseteq>\<^sub>m memo1"
    "\<forall>b z. memo1 b = Some z \<longrightarrow> memo b = None \<longrightarrow> length h \<le> z"
    "x1 = subst memo1 v" "set (val_refs v) \<subseteq> dom memo1"
    using "12.IH"(1)[of x1 "(memo1, h1)" P] dc g wfx by auto
  from A(2) obtain ext where h1: "h1 = h @ ext" ..
  have y1: "y < length h1" "h1 ! y = PDict kjs" using y h1 by (auto simp: nth_append)
  have h2: "dict_setitem h1 y k x1 = h1[y := PDict (kjs @ [(k, x1)])]"
    using y1 dist(1) by (rule dict_setitem_nth)
  have yP1: "\<forall>b. memo1 b = Some y \<longrightarrow> b \<in> P"
  proof (intro allI impI)
    fix b assume b: "memo1 b = Some y"
    show "b \<in> P"
    proof (cases "memo b")
      case None
      with A(4) b have "length h \<le> y" by blast
      with y show ?thesis by simp
    next
      case (Some z)
      with A(3) have "memo1 b = Some z" by (auto simp: map_le_def dom_def)
      with b Some yP show ?thesis by auto
    qed
  qed
  have g2: "copying h0 P memo1 (h1[y := PDict (kjs @ [(k, x1)])])"
    using copying_update[OF A(1) y(1) yP1] .
  have B: "copying h0 P memo' h'" "length h1 \<le> length h'"
    "\<forall>i<length h1. i \<noteq> y \<longrightarrow> h' ! i = (h1[y := PDict (kjs @ [(k, x1)])]) ! i" "memo1 \<subseteq>\<^sub>m memo'"
    "\<forall>b z. memo' b = Some z \<longrightarrow> memo1 b = None \<longrightarrow> length h1 \<le> z"
    "h' ! y = PDict ((kjs @ [(k, x1)]) @ map (\<lambda>kv. (fst kv, subst memo' (snd kv))) kvs)"
    "\<forall>kv\<in>set kvs. set (val_refs (snd kv)) \<subseteq> dom memo'"
    using "12.IH"(2)[OF dc refl refl, of s' P "kjs @ [(k, x1)]"] rest g2 wfxs y(1) y1 yP1 dist(2)
    unfolding h2 s' by auto
  have c1: "length h \<le> length h'" using B(2) h1 by simp
  have c2: "\<forall>i<length h. i \<noteq> y \<longrightarrow> h' ! i = h ! i"
    using B(3) h1 by (auto simp: nth_append)
  have c3: "memo \<subseteq>\<^sub>m memo'" using A(3) B(4) by (rule map_le_trans)
  have c4: "\<forall>b z. memo' b = Some z \<longrightarrow> memo b = None \<longrightarrow> length h \<le> z"
  proof (intro allI impI)
    fix b z assume b: "memo' b = Some z" "memo b = None"
    show "length h \<le> z"
    proof (cases "memo1 b")
      case None
      with B(5) b have "length h1 \<le> z" by blast
      with h1 show ?thesis by simp
    next
      case (Some z1)
      with B(4) have "memo' b = Some z1" by (auto simp: map_le_def dom_def)
      with b Some A(4) show ?thesis by auto
    qed
  qed
  have "subst memo' v = subst memo1 v" using subst_ext[OF A(6) B(4)] .
  with A(5) B(6) have c5:
    "h' ! y = PDict (kjs @ map (\<lambda>kv. (fst kv, subst memo' (snd kv))) ((k, v) # kvs))" by simp
  have "dom memo1 \<subseteq> dom memo'" using B(4) by (rule map_le_implies_dom_le)
  with A(6) B(7) have c6: "\<forall>kv\<in>set ((k, v) # kvs). set (val_refs (snd kv)) \<subseteq> dom memo'" by auto
  show ?case using B(1) c1 c2 c3 c4 c5 c6 unfolding s' by simp
qed

lemma val_refs_subst:
  assumes "set (val_refs v) \<subseteq> dom memo"
  shows "set (val_refs (subst memo v)) \<subseteq> ran memo"
proof (cases v)
  case (PRef a)
  with assms obtain y where y: "memo a = Some y" by auto
  then have "y \<in> ran memo" by (rule ranI)
  with PRef y show ?thesis by (simp add: subst_def)
qed (simp_all add: subst_def)

lemma items_map_obj: "items (map_obj f ob) = map f (items ob)"
  by (cases ob) (simp_all add: comp_def)

lemma refs_map_obj_subst:
  assumes "set (refs ob) \<subseteq> dom memo"
  shows "set (refs (map_obj (subst memo) ob)) \<subseteq> ran memo"
proof
  fix b assume "b \<in> set (refs (map_obj (subst memo) ob))"
  then obtain v where v: "v \<in> set (items ob)" "b \<in> set (val_refs (subst memo v))"
    by (auto simp: refs_def items_map_obj)
  from assms v(1) have "set (val_refs v) \<subseteq> dom memo" by (simp add: refs_items)
  from val_refs_subst[OF this] v(2) show "b \<in> ran memo" by blast
qed

lemma reach_copy:
  assumes g: "copying h0 {} memo h1" and x: "set (val_refs x) \<subseteq> dom memo"
    and r: "a \<in> reach h1 (subst memo x)"
  shows "a \<in> ran memo"
  using r
proof (induction rule: reach.induct)
  case (start a)
  with val_refs_subst[OF x] show ?case by auto
next
  case (step a ob b)
  from step.IH obtain a0 where a0: "memo a0 = Some a" by (auto simp: ran_def)
  with g have "a < length h1" "copied h0 memo h1 a0 a" by (auto simp: copying_def)
  with step.hyps(2) have "ob = map_obj (subst memo) (h0 ! a0)" "set (refs (h0 ! a0)) \<subseteq> dom memo"
    by (auto simp: deref_def copied_def)
  with refs_map_obj_subst[of "h0 ! a0" memo] step.hyps(3) show ?case by auto
qed

lemma unfold_copy:
  assumes g: "copying h0 {} memo h1"
  shows "set (val_refs v) \<subseteq> dom memo \<Longrightarrow> unfold d h1 (subst memo v) = unfold d h0 v"
proof (induction d arbitrary: v)
  case 0
  then show ?case by simp
next
  case (Suc d)
  show ?case
  proof (cases v)
    case (PRef a)
    with Suc.prems obtain y where y: "memo a = Some y" by auto
    with g have b: "a < length h0" "y < length h1" "copied h0 memo h1 a y"
      by (auto simp: copying_def)
    then have c: "h1 ! y = map_obj (subst memo) (h0 ! a)" "set (refs (h0 ! a)) \<subseteq> dom memo"
      by (auto simp: copied_def)
    have s: "subst memo v = PRef y" using PRef y by (simp add: subst_def)
    show ?thesis
    proof (cases "h0 ! a")
      case (PList xs)
      with c(2) have "\<forall>x\<in>set xs. set (val_refs x) \<subseteq> dom memo" by (simp add: refs_items)
      with Suc.IH have "map (unfold d h1 \<circ> subst memo) xs = map (unfold d h0) xs" by simp
      with PList c(1) b s PRef show ?thesis by (simp add: deref_def)
    next
      case (PDict kvs)
      with c(2) have "\<forall>kv\<in>set kvs. set (val_refs (snd kv)) \<subseteq> dom memo" by (simp add: refs_items)
      with Suc.IH have "map (\<lambda>kv. (fst kv, unfold d h1 (subst memo (snd kv)))) kvs =
          map (\<lambda>kv. (fst kv, unfold d h0 (snd kv))) kvs" by simp
      with PDict c(1) b s PRef show ?thesis by (simp add: deref_def comp_def)
    qed
  qed (simp_all add: subst_def)
qed

lemma deepcopy_fresh_copy:
  assumes wf: "wf_heap h0" and x: "wf_val (length h0) x"
    and dc: "deepcopy n x (Map.empty, h0) = Inr (c, memo, h1)"
  shows "(\<exists>ext. h1 = h0 @ ext) \<and> (\<forall>a\<in>reach h1 c. length h0 \<le> a) \<and>
         (\<forall>d. unfold d h1 c = unfold d h0 x)"
proof -
  have g0: "copying h0 {} (fst (Map.empty, h0)) (snd (Map.empty, h0))" by (simp add: copying_def)
  from deepcopy_copying(1)[OF wf dc g0 x]
  have g: "copying h0 {} memo h1" and e: "\<exists>ext. h1 = h0 @ ext"
    and c: "c = subst memo x" and r: "set (val_refs x) \<subseteq> dom memo"
    by simp_all
  have "\<forall>a\<in>reach h1 c. length h0 \<le> a"
  proof
    fix a assume "a \<in> reach h1 c"
    with reach_copy[OF g r] c have "a \<in> ran memo" by simp
    with g show "length h0 \<le> a" by (auto simp: ran_def copying_def)
  qed
  moreover have "\<forall>d. unfold d h1 c = unfold d h0 x"
    using unfold_copy[OF g r] c by simp
  ultimately show ?thesis using e by simp
qed

lemma edit_messages_frame:
  assumes wf: "wf_heap (heap m)" and x: "wf_val (length (heap m)) messages" and f: "hook_confined f"
  shows "length (heap m) \<le> length (heap (snd (edit_messages e (Some f) messages m))) \<and>
         (\<forall>a<length (heap m). heap (snd (edit_messages e (Some f) messages m)) ! a = heap m ! a)"
proof (cases "deepcopy (rlimit e) messages (Map.empty, heap m)")
  case (Inl err)
  then show ?thesis by (simp add: edit_messages_def)
next
  case (Inr res)
  obtain c memo h1 where res: "res = (c, memo, h1)" by (cases res)
  from deepcopy_fresh_copy[OF wf x Inr[unfolded res]] obtain ext where
    h1: "h1 = heap m @ ext" and fresh: "\<forall>a\<in>reach h1 c. length (heap m) \<le> a"
    by auto
  have em: "edit_messages e (Some f) messages m = f c (m\<lparr>heap := h1\<rparr>)"
    using Inr res by (simp add: edit_messages_def)
  from f have len: "length h1 \<le> length (heap (snd (f c (m\<lparr>heap := h1\<rparr>))))"
    and keep: "\<forall>a<length h1. a \<notin> reach h1 c \<longrightarrow> heap (snd (f c (m\<lparr>heap := h1\<rparr>))) ! a = h1 ! a"
    unfolding hook_confined_def
    by (metis mem.select_convs(1) mem.surjective mem.update_convs(1))+
  show ?thesis
  proof (intro conjI allI impI)
    show "length (heap m) \<le> length (heap (snd (edit_messages e (Some f) messages m)))"
      using len h1 em by simp
    fix a assume a: "a < length (heap m)"
    with fresh have "a \<notin> reach h1 c" by auto
    with keep a h1 have "heap (snd (f c (m\<lparr>heap := h1\<rparr>))) ! a = h1 ! a" by simp
    with a h1 em show "heap (snd (edit_messages e (Some f) messages m)) ! a = heap m ! a"
      by (simp add: nth_append)
  qed
qed

lemma create_and_log_heap:
  assumes "api_allocates (original_chat_completion_create e)"
  shows "\<exists>ext. heap (py (snd (create_and_log e hk messages kw w))) =
           heap (snd (edit_messages e hk messages (py w))) @ ext"
proof -
  have api: "\<And>msgs m r m2. original_chat_completion_create e msgs kw m = (r, m2) \<Longrightarrow>
      \<exists>ext. heap m2 = heap m @ ext"
    using assms unfolding api_allocates_def by (metis snd_conv)
  show ?thesis
  proof (cases "edit_messages e hk messages (py w)")
    case (Pair r1 m1)
    show ?thesis
    proof (cases r1)
      case (Inl err)
      with Pair show ?thesis by (simp add: create_and_log_def)
    next
      case (Inr msgs)
      obtain r2 m2 where o: "original_chat_completion_create e msgs kw m1 = (r2, m2)"
        by (cases "original_chat_completion_create e msgs kw m1")
      from api[OF o] obtain ext where m2: "heap m2 = heap m1 @ ext" ..
      show ?thesis
      proof (cases r2)
        case (Inl err)
        with Pair Inr o m2 show ?thesis by (simp add: create_and_log_def)
      next
        case r: (Inr r)
        show ?thesis
        proof (cases "trace_of (heap m2) msgs r")
          case (Inl err)
          with Pair Inr o m2 r show ?thesis by (simp add: create_and_log_def)
        next
          case t: (Inr th)
          obtain t h3 where th: "th = (t, h3)" by (cases th)
          from trace_of_heap[OF t[unfolded th]] obtain ext3 where "h3 = heap m2 @ ext3" ..
          with Pair Inr o m2 r t th show ?thesis
            by (auto simp: create_and_log_def Let_def py_logger_info json_dumps_record_def
                split: sum.splits)
        qed
      qed
    qed
  qed
qed

lemma hook_confined_append_system: "hook_confined append_system"
  unfolding hook_confined_def
proof (intro allI conjI impI)
  fix c m
  show "length (heap m) \<le> length (heap (snd (append_system c m)))"
    by (cases c) (auto simp: append_system_def list_append_def split: pyobj.splits)
  fix a assume a: "a < length (heap m)" "a \<notin> reach (heap m) c"
  show "heap (snd (append_system c m)) ! a = heap m ! a"
  proof (cases c)
    case (PRef x)
    then have "x \<in> reach (heap m) c" by (rule reach.start)
    with a have ax: "a \<noteq> x" by auto
    have "list_append (heap m @ [ob]) x v ! a = heap m ! a" for ob v
      using a(1) ax by (simp add: list_append_def nth_append split: pyobj.splits)
    with PRef show ?thesis by (simp add: append_system_def)
  next
    case PNone then show ?thesis by (simp add: append_system_def)
  next
    case (PBool b) then show ?thesis by (simp add: append_system_def)
  next
    case (PInt i) then show ?thesis by (simp add: append_system_def)
  next
    case (PFloat r) then show ?thesis by (simp add: append_system_def)
  next
    case (PStr s) then show ?thesis by (simp add: append_system_def)
  next
    case (POpaque i) then show ?thesis by (simp add: append_system_def)
  qed
qed

lemma api_allocates_sample_api: "api_allocates (sample_api content)"
  by (simp add: api_allocates_def sample_api_def)

text \<open>
  A store of fewer objects than the recursion limit is copied without
  \<^verbatim>\<open>RecursionError\<close>: each nested call of \<^verbatim>\<open>deepcopy\<close> on a container not yet in the memo
  adds one, and the memo remembers the others.
\<close>

lemma deepcopy_list_step:
  assumes wf: "wf_heap h0" and g: "copying h0 P memo h" and x: "wf_val (length h0) x"
    and y: "length h0 \<le> y" "y < length h" "h ! y = PList ys"
    and yP: "\<forall>b. memo b = Some y \<longrightarrow> b \<in> P"
    and dc: "deepcopy n x (memo, h) = Inr (x1, memo1, h1)"
  shows "copying h0 P memo1 (list_append h1 y x1)" "y < length (list_append h1 y x1)"
    "list_append h1 y x1 ! y = PList (ys @ [x1])" "\<forall>b. memo1 b = Some y \<longrightarrow> b \<in> P"
    "dom memo \<subseteq> dom memo1"
proof -
  have A: "copying h0 P memo1 h1" "\<exists>ext. h1 = h @ ext" "memo \<subseteq>\<^sub>m memo1"
    "\<forall>b z. memo1 b = Some z \<longrightarrow> memo b = None \<longrightarrow> length h \<le> z"
    using deepcopy_copying(1)[OF wf dc, of P] g x by auto
  from A(2) obtain ext where h1: "h1 = h @ ext" ..
  have y1: "y < length h1" "h1 ! y = PList ys" using y h1 by (auto simp: nth_append)
  have h2: "list_append h1 y x1 = h1[y := PList (ys @ [x1])]"
    using y1 by (rule list_append_nth)
  show yP1: "\<forall>b. memo1 b = Some y \<longrightarrow> b \<in> P"
  proof (intro allI impI)
    fix b assume b: "memo1 b = Some y"
    show "b \<in> P"
    proof (cases "memo b")
      case None
      with A(4) b have "length h \<le> y" by blast
      with y show ?thesis by simp
    next
      case (Some z)
      with A(3) have "memo1 b = Some z" by (auto simp: map_le_def dom_def)
      with b Some yP show ?thesis by auto
    qed
  qed
  show "copying h0 P memo1 (list_append h1 y x1)"
    unfolding h2 using copying_update[OF A(1) y(1) yP1] .
  show "y < length (list_append h1 y x1)" unfolding h2 using y1 by simp
  show "list_append h1 y x1 ! y = PList (ys @ [x1])" unfolding h2 using y1 by simp
  show "dom memo \<subseteq> dom memo1" using A(3) by (rule map_le_implies_dom_le)
qed

lemma deepcopy_dict_step:
  assumes wf: "wf_heap h0" and g: "copying h0 P memo h" and x: "wf_val (length h0) v"
    and y: "length h0 \<le> y" "y < length h" "h ! y = PDict kjs" and k: "k \<notin> fst ` set kjs"
    and yP: "\<forall>b. memo b = Some y \<longrightarrow> b \<in> P"
    and dc: "deepcopy n v (memo, h) = Inr (x1, memo1, h1)"
  shows "copying h0 P memo1 (dict_setitem h1 y k x1)" "y < length (dict_setitem h1 y k x1)"
    "dict_setitem h1 y k x1 ! y = PDict (kjs @ [(k, x1)])" "\<forall>b. memo1 b = Some y \<longrightarrow> b \<in> P"
    "dom memo \<subseteq> dom memo1"
proof -
  have A: "copying h0 P memo1 h1" "\<exists>ext. h1 = h @ ext" "memo \<subseteq>\<^sub>m memo1"
    "\<forall>b z. memo1 b = Some z \<longrightarrow> memo b = None \<longrightarrow> length h \<le> z"
    using deepcopy_copying(1)[OF wf dc, of P] g x by auto
  from A(2) obtain ext where h1: "h1 = h @ ext" ..
  have y1: "y < length h1" "h1 ! y = PDict kjs" using y h1 by (auto simp: nth_append)
  have h2: "dict_setitem h1 y k x1 = h1[y := PDict (kjs @ [(k, x1)])]"
    using y1 k by (rule dict_setitem_nth)
  show yP1: "\<forall>b. memo1 b = Some y \<longrightarrow> b \<in> P"
  proof (intro allI impI)
    fix b assume b: "memo1 b = Some y"
    show "b \<in> P"
    proof (cases "memo b")
      case None
      with A(4) b have "length h \<le> y" by blast
      with y show ?thesis by simp
    next
      case (Some z)
      with A(3) have "memo1 b = Some z" by (auto simp: map_le_def dom_def)
      with b Some yP show ?thesis by auto
    qed
  qed
  show "copying h0 P memo1 (dict_setitem h1 y k x1)"
    unfolding h2 using copying_update[OF A(1) y(1) yP1] .
  show "y < length (dict_setitem h1 y k x1)" unfolding h2 using y1 by simp
  show "dict_setitem h1 y k x1 ! y = PDict (kjs @ [(k, x1)])" unfolding h2 using y1 by simp
  show "dom memo \<subseteq> dom memo1" using A(3) by (rule map_le_implies_dom_le)
qed

lemma unvisited_alloc:
  assumes "a < (n0::nat)" "memo a = None" "card ({..<n0} - dom memo) < Suc n"
  shows "card ({..<n0} - dom (memo(a \<mapsto> y))) < n"
proof -
  have a: "a \<in> {..<n0} - dom memo" using assms(1,2) by auto
  have "{..<n0} - dom (memo(a \<mapsto> y)) = ({..<n0} - dom memo) - {a}" by auto
  moreover have "finite ({..<n0} - dom memo)" by (rule finite_Diff) simp
  then have "card (({..<n0} - dom memo) - {a}) < card ({..<n0} - dom memo)"
    using a by (rule card_Diff1_less)
  ultimately show ?thesis using assms(3) by simp
qed

lemma unvisited_mono:
  assumes "dom memo \<subseteq> dom memo1" "card ({..<n0::nat} - dom memo) < n"
  shows "card ({..<n0} - dom memo1) < n"
proof -
  have "finite ({..<n0} - dom memo)" by (rule finite_Diff) simp
  moreover have "{..<n0} - dom memo1 \<subseteq> {..<n0} - dom memo" using assms(1) by auto
  ultimately have "card ({..<n0} - dom memo1) \<le> card ({..<n0} - dom memo)"
    by (rule card_mono)
  with assms(2) show ?thesis by simp
qed

lemma deepcopy_returns:
  assumes wf: "wf_heap h0"
  shows "copying h0 P (fst s) (snd s) \<Longrightarrow> wf_val (length h0) x \<Longrightarrow>
           card ({..<length h0} - dom (fst s)) < n \<Longrightarrow> \<exists>r. deepcopy n x s = Inr r"
    and "copying h0 P (fst s) (snd s) \<Longrightarrow> list_all (wf_val (length h0)) xs \<Longrightarrow>
           length h0 \<le> y \<Longrightarrow> y < length (snd s) \<Longrightarrow> snd s ! y = PList ys \<Longrightarrow>
           (\<forall>b. fst s b = Some y \<longrightarrow> b \<in> P) \<Longrightarrow>
           card ({..<length h0} - dom (fst s)) < n \<Longrightarrow> \<exists>r. deepcopy_list n xs y s = Inr r"
    and "copying h0 P (fst s) (snd s) \<Longrightarrow> list_all (wf_val (length h0)) (map snd kvs) \<Longrightarrow>
           length h0 \<le> y \<Longrightarrow> y < length (snd s) \<Longrightarrow> snd s ! y = PDict kjs \<Longrightarrow>
           distinct (map fst kjs @ map fst kvs) \<Longrightarrow>
           (\<forall>b. fst s b = Some y \<longrightarrow> b \<in> P) \<Longrightarrow>
           card ({..<length h0} - dom (fst s)) < n \<Longrightarrow> \<exists>r. deepcopy_dict n kvs y s = Inr r"
proof (induction n x s and n xs y s and n kvs y s arbitrary: P and P ys and P kjs
       rule: deepcopy_deepcopy_list_deepcopy_dict.induct)
  case (1 x memo h)
  then show ?case by simp
next
  case (2 n a memo h)
  have g: "copying h0 P memo h" and a: "a < length h0"
    and cd: "card ({..<length h0} - dom memo) < Suc n"
    using "2.prems" by (auto simp: wf_val_def)
  show ?case
  proof (cases "memo a")
    case (Some y)
    then show ?thesis by simp
  next
    case None
    have ah: "a < length h" "h ! a = h0 ! a" using g a by (auto simp: copying_def)
    then have dr: "deref h a = Some (h0 ! a)" by (simp add: deref_def)
    have fresh_y: "\<forall>b. (memo(a \<mapsto> length h)) b = Some (length h) \<longrightarrow> b \<in> insert a P"
      using g by (auto simp: copying_def split: if_splits)
    have n0: "length h0 \<le> length h" using g by (simp add: copying_def)
    have cd1: "card ({..<length h0} - dom (memo(a \<mapsto> length h))) < n"
      using unvisited_alloc[OF a None cd] .
    show ?thesis
    proof (cases "h0 ! a")
      case (PList xs)
      have g1: "copying h0 (insert a P) (memo(a \<mapsto> length h)) (h @ [PList []])"
        using copying_alloc[OF g a None] .
      have wfxs: "list_all (wf_val (length h0)) xs"
        using wf_heap_obj[OF wf a] PList by simp
      have ylt: "length h < length (h @ [PList []])" by simp
      have ynth: "(h @ [PList []]) ! length h = PList []" by simp
      from "2.IH"(1)[OF None dr[unfolded PList] refl, of "insert a P" "[]",
          unfolded fst_conv snd_conv, OF g1 wfxs n0 ylt ynth fresh_y cd1]
      obtain r where "deepcopy_list n xs (length h) (memo(a \<mapsto> length h), h @ [PList []]) = Inr r" ..
      with None dr PList show ?thesis by (cases r) simp
    next
      case (PDict kvs)
      have g1: "copying h0 (insert a P) (memo(a \<mapsto> length h)) (h @ [PDict []])"
        using copying_alloc[OF g a None] .
      have wfxs: "list_all (wf_val (length h0)) (map snd kvs)" "distinct (map fst kvs)"
        using wf_heap_obj[OF wf a] PDict by simp_all
      have ylt: "length h < length (h @ [PDict []])" by simp
      have ynth: "(h @ [PDict []]) ! length h = PDict []" by simp
      have dist: "distinct (map fst ([] :: (string \<times> pyval) list) @ map fst kvs)"
        using wfxs(2) by simp
      from "2.IH"(2)[OF None dr[unfolded PDict] refl, of "insert a P" "[]",
          unfolded fst_conv snd_conv, OF g1 wfxs(1) n0 ylt ynth dist fresh_y cd1]
      obtain r where "deepcopy_dict n kvs (length h) (memo(a \<mapsto> length h), h @ [PDict []]) = Inr r" ..
      with None dr PDict show ?thesis by (cases r) simp
    qed
  qed
next
  case (3 n memo h)
  then show ?case by simp
next
  case (4 n b memo h)
  then show ?case by simp
next
  case (5 n i memo h)
  then show ?case by simp
next
  case (6 n r memo h)
  then show ?case by simp
next
  case (7 n s memo h)
  then show ?case by simp
next
  case (8 n i memo h)
  then show ?case by simp
next
  case (9 n y memo h)
  then show ?case by simp
next
  case (10 n x xs y memo h)
  have wfx: "wf_val (length h0) x" and wfxs: "list_all (wf_val (length h0)) xs"
    using "10.prems"(2) by auto
  have g: "copying h0 P memo h" and y: "length h0 \<le> y" "y < length h" "h ! y = PList ys"
    and yP: "\<forall>b. memo b = Some y \<longrightarrow> b \<in> P"
    and cd: "card ({..<length h0} - dom memo) < n"
    using "10.prems" by auto
  from "10.IH"(1)[of P, unfolded fst_conv snd_conv, OF g wfx cd]
  obtain r where "deepcopy n x (memo, h) = Inr r" ..
  then obtain x1 memo1 h1 where dc: "deepcopy n x (memo, h) = Inr (x1, memo1, h1)"
    by (cases r) auto
  note st = deepcopy_list_step[OF wf g wfx y yP dc]
  from "10.IH"(2)[OF dc refl refl, of P "ys @ [x1]", unfolded fst_conv snd_conv,
      OF st(1) wfxs y(1) st(2) st(3) st(4) unvisited_mono[OF st(5) cd]]
  obtain r' where "deepcopy_list n xs y (memo1, list_append h1 y x1) = Inr r'" ..
  with dc show ?case by simp
next
  case (11 n y memo h)
  then show ?case by simp
next
  case (12 n k v kvs y memo h)
  have wfx: "wf_val (length h0) v" and wfxs: "list_all (wf_val (length h0)) (map snd kvs)"
    using "12.prems"(2) by auto
  have g: "copying h0 P memo h" and y: "length h0 \<le> y" "y < length h" "h ! y = PDict kjs"
    and yP: "\<forall>b. memo b = Some y \<longrightarrow> b \<in> P"
    and cd: "card ({..<length h0} - dom memo) < n"
    and k: "k \<notin> fst ` set kjs"
    using "12.prems" by auto
  from "12.IH"(1)[of P, unfolded fst_conv snd_conv, OF g wfx cd]
  obtain r where "deepcopy n v (memo, h) = Inr r" ..
  then obtain x1 memo1 h1 where dc: "deepcopy n v (memo, h) = Inr (x1, memo1, h1)"
    by (cases r) auto
  have dist: "distinct (map fst (kjs @ [(k, x1)]) @ map fst kvs)"
    using "12.prems"(6) by auto
  note st = deepcopy_dict_step[OF wf g wfx y k yP dc]
  from "12.IH"(2)[OF dc refl refl, of P "kjs @ [(k, x1)]", unfolded fst_conv snd_conv,
      OF st(1) wfxs y(1) st(2) st(3) dist st(4) unvisited_mono[OF st(5) cd]]
  obtain r' where "deepcopy_dict n kvs y (memo1, dict_setitem h1 y k x1) = Inr r'" ..
  with dc show ?case by simp
qed

lemma deepcopy_total:
  assumes "wf_heap h0" and "wf_val (length h0) x" and "length h0 < n"
  shows "\<exists>c memo h1. deepcopy n x (Map.empty, h0) = Inr (c, memo, h1)"
proof -
  have g0: "copying h0 {} (fst (Map.empty, h0)) (snd (Map.empty, h0))" by (simp add: copying_def)
  have "card ({..<length h0} - dom (fst (Map.empty :: nat \<rightharpoonup> nat, h0))) < n"
    using assms(3) by simp
  from deepcopy_returns(1)[OF assms(1) g0 assms(2) this]
  obtain r where "deepcopy n x (Map.empty, h0) = Inr r" ..
  then show ?thesis by (cases r) auto
qed

text \<open>
  Claim C4. The store of the caller is well formed, the hook works in place on its
  argument and the client library only allocates. Then every object that existed when
  the call began is the same when it ends, the caller's list and all it refers to among
  them. A store smaller than the recursion limit is copied, and when \<^verbatim>\<open>deepcopy\<close> returns,
  its result reaches new objects only and reads as the caller's messages do, at every
  depth. The hook is called on that result in the extended store: if it raises, the call
  raises the same and stops in the state the hook left; if it returns, what it returns
  goes to the function captured at import, in the state the hook left, and the exception
  or the response of that function is that of the call. Whatever the outcome, the store
  at the end extends the one the hook left, so what the hook wrote to the copy stays
  there. When \<^verbatim>\<open>deepcopy\<close> raises, the call raises the same and nothing has changed.
\<close>

theorem create_and_log_hook_on_copy:
  assumes "wf_heap (heap (py w))" and "wf_val (length (heap (py w))) messages"
    and "hook_confined f" and "api_allocates (original_chat_completion_create e)"
  shows "(\<forall>a<length (heap (py w)).
            heap (py (snd (create_and_log e (Some f) messages kw w))) ! a = heap (py w) ! a) \<and>
         (length (heap (py w)) < rlimit e \<longrightarrow>
            (\<exists>c memo h1. deepcopy (rlimit e) messages (Map.empty, heap (py w)) = Inr (c, memo, h1))) \<and>
         (\<forall>c memo h1. deepcopy (rlimit e) messages (Map.empty, heap (py w)) = Inr (c, memo, h1) \<longrightarrow>
            (\<exists>ext. h1 = heap (py w) @ ext) \<and>
            (\<forall>a\<in>reach h1 c. length (heap (py w)) \<le> a) \<and>
            (\<forall>d. unfold d h1 c = unfold d (heap (py w)) messages) \<and>
            (\<forall>x m1. f c ((py w)\<lparr>heap := h1\<rparr>) = (Inl x, m1) \<longrightarrow>
               create_and_log e (Some f) messages kw w = (Inl x, w\<lparr>py := m1\<rparr>)) \<and>
            (\<forall>fwd m1. f c ((py w)\<lparr>heap := h1\<rparr>) = (Inr fwd, m1) \<longrightarrow>
               (\<forall>x m2. original_chat_completion_create e fwd kw m1 = (Inl x, m2) \<longrightarrow>
                  create_and_log e (Some f) messages kw w = (Inl x, w\<lparr>py := m2\<rparr>)) \<and>
               (\<forall>r. fst (create_and_log e (Some f) messages kw w) = Inr r \<longrightarrow>
                  fst (original_chat_completion_create e fwd kw m1) = Inr r)) \<and>
            (\<exists>ext. heap (py (snd (create_and_log e (Some f) messages kw w))) =
               heap (snd (f c ((py w)\<lparr>heap := h1\<rparr>))) @ ext)) \<and>
         (\<forall>err. deepcopy (rlimit e) messages (Map.empty, heap (py w)) = Inl err \<longrightarrow>
            create_and_log e (Some f) messages kw w = (Inl err, w))"
proof (intro conjI allI impI)
  fix a assume a: "a < length (heap (py w))"
  from create_and_log_heap[OF assms(4), of "Some f" messages kw w] obtain ext where
    "heap (py (snd (create_and_log e (Some f) messages kw w))) =
       heap (snd (edit_messages e (Some f) messages (py w))) @ ext" ..
  with edit_messages_frame[OF assms(1,2,3), of e] a
  show "heap (py (snd (create_and_log e (Some f) messages kw w))) ! a = heap (py w) ! a"
    by (simp add: nth_append)
next
  assume "length (heap (py w)) < rlimit e"
  with assms(1,2)
  show "\<exists>c memo h1. deepcopy (rlimit e) messages (Map.empty, heap (py w)) = Inr (c, memo, h1)"
    by (rule deepcopy_total)
next
  fix c memo h1
  assume dc: "deepcopy (rlimit e) messages (Map.empty, heap (py w)) = Inr (c, memo, h1)"
  from deepcopy_fresh_copy[OF assms(1,2) dc]
  show "\<exists>ext. h1 = heap (py w) @ ext" "\<forall>a\<in>reach h1 c. length (heap (py w)) \<le> a"
    by blast+
  have em: "edit_messages e (Some f) messages (py w) = f c ((py w)\<lparr>heap := h1\<rparr>)"
    using dc by (simp add: edit_messages_def)
  from create_and_log_heap[OF assms(4), of "Some f" messages kw w]
  show "\<exists>ext. heap (py (snd (create_and_log e (Some f) messages kw w))) =
      heap (snd (f c ((py w)\<lparr>heap := h1\<rparr>))) @ ext"
    unfolding em .
  {
    fix d
    from deepcopy_fresh_copy[OF assms(1,2) dc]
    show "unfold d h1 c = unfold d (heap (py w)) messages" by blast
  }
  {
    fix x m1 assume fx: "f c ((py w)\<lparr>heap := h1\<rparr>) = (Inl x, m1)"
    show "create_and_log e (Some f) messages kw w = (Inl x, w\<lparr>py := m1\<rparr>)"
      using create_and_log_hook_raises[where f = f and c = c and kw = kw, OF dc fx] .
  }
  {
    fix fwd m1 x m2
    assume fx: "f c ((py w)\<lparr>heap := h1\<rparr>) = (Inr fwd, m1)"
      and o: "original_chat_completion_create e fwd kw m1 = (Inl x, m2)"
    show "create_and_log e (Some f) messages kw w = (Inl x, w\<lparr>py := m2\<rparr>)"
      using create_and_log_hook_forwards[where f = f and c = c and kw = kw, OF dc fx] o by blast
  }
  {
    fix fwd m1 r
    assume fx: "f c ((py w)\<lparr>heap := h1\<rparr>) = (Inr fwd, m1)"
      and r: "fst (create_and_log e (Some f) messages kw w) = Inr r"
    show "fst (original_chat_completion_create e fwd kw m1) = Inr r"
      using create_and_log_hook_forwards[where f = f and c = c and kw = kw, OF dc fx] r by blast
  }
next
  fix err assume "deepcopy (rlimit e) messages (Map.empty, heap (py w)) = Inl err"
  then show "create_and_log e (Some f) messages kw w = (Inl err, w)"
    by (rule create_and_log_copy_raises)
qed

text \<open>
  The hook appends a system message to its argument in place. The call returns the
  response; the copy, at address 2, holds the message the hook appended, and the list of
  the caller, at address 1, still holds the one user message.
\<close>

theorem create_and_log_hook_on_copy_witness:
  "fst (create_and_log (sample_env (sample_api (PStr ''hello''))) (Some append_system)
      (PRef 1) [] sample_world) = Inr (PRef 8) \<and>
   fst (projr (deepcopy (rlimit (sample_env (sample_api (PStr ''hello'')))) (PRef 1)
      (Map.empty, heap (py sample_world)))) = PRef 2 \<and>
   heap (py (snd (create_and_log (sample_env (sample_api (PStr ''hello''))) (Some append_system)
      (PRef 1) [] sample_world))) ! 2 = PList [PRef 3, PRef 4] \<and>
   heap (py (snd (create_and_log (sample_env (sample_api (PStr ''hello''))) (Some append_system)
      (PRef 1) [] sample_world))) ! 1 = PList [PRef 0] \<and>
   heap (py (snd (create_and_log (sample_env (sample_api (PStr ''hello''))) (Some append_system)
      (PRef 1) [] sample_world))) ! 0 = PDict [(''role'', PStr ''user''), (''content'', PStr ''hi'')]"
proof -
  define E where "E = sample_env (sample_api (PStr ''hello''))"
  define H where "H = heap (py (snd (create_and_log E (Some append_system) (PRef 1) [] sample_world)))"
  have h1: "wf_heap (heap (py sample_world))" by code_simp
  have h2: "wf_val (length (heap (py sample_world))) (PRef 1)" by code_simp
  have h4: "api_allocates (original_chat_completion_create E)"
    by (simp add: E_def sample_env_def api_allocates_sample_api)
  have l: "length (heap (py sample_world)) = 2" "heap (py sample_world) ! 1 = PList [PRef 0]"
    "heap (py sample_world) ! 0 = PDict [(''role'', PStr ''user''), (''content'', PStr ''hi'')]"
    by (simp_all add: sample_world_def)
  have lim: "length (heap (py sample_world)) < rlimit E"
    by (simp add: E_def sample_env_def sample_world_def)
  note t = create_and_log_hook_on_copy[OF h1 h2 hook_confined_append_system h4, where kw = "[]",
      folded H_def]
  from t lim obtain c memo hc where
    dc: "deepcopy (rlimit E) (PRef 1) (Map.empty, heap (py sample_world)) = Inr (c, memo, hc)"
    by blast
  have c2: "fst (projr (deepcopy (rlimit E) (PRef 1) (Map.empty, heap (py sample_world)))) = PRef 2"
    unfolding E_def by code_simp
  have hc2: "snd (snd (projr (deepcopy (rlimit E) (PRef 1) (Map.empty, heap (py sample_world))))) =
      [PDict [(''role'', PStr ''user''), (''content'', PStr ''hi'')], PList [PRef 0],
       PList [PRef 3], PDict [(''role'', PStr ''user''), (''content'', PStr ''hi'')]]"
    unfolding E_def by code_simp
  from dc c2 hc2 have c: "c = PRef 2"
    and hc: "hc = [PDict [(''role'', PStr ''user''), (''content'', PStr ''hi'')], PList [PRef 0],
       PList [PRef 3], PDict [(''role'', PStr ''user''), (''content'', PStr ''hi'')]]"
    by simp_all
  from t dc obtain ext where
    ext: "H = heap (snd (append_system c ((py sample_world)\<lparr>heap := hc\<rparr>))) @ ext"
    by blast
  have w2: "heap (snd (append_system c ((py sample_world)\<lparr>heap := hc\<rparr>))) =
      [PDict [(''role'', PStr ''user''), (''content'', PStr ''hi'')], PList [PRef 0],
       PList [PRef 3, PRef 4], PDict [(''role'', PStr ''user''), (''content'', PStr ''hi'')],
       PDict [(''role'', PStr ''system''), (''content'', PStr ''be brief'')]]"
    unfolding c hc by (simp add: append_system_def list_append_def)
  have p2: "H ! 2 = PList [PRef 3, PRef 4]" unfolding ext w2 by simp
  note fr = t[THEN conjunct1, unfolded l(1), rule_format]
  have a1: "(1::nat) < 2" and a0: "(0::nat) < 2" by simp_all
  have p1: "H ! 1 = PList [PRef 0]" using fr[OF a1] l(2) by (rule trans)
  have p0: "H ! 0 = PDict [(''role'', PStr ''user''), (''content'', PStr ''hi'')]"
    using fr[OF a0] l(3) by (rule trans)
  have r: "fst (create_and_log E (Some append_system) (PRef 1) [] sample_world) = Inr (PRef 8)"
    unfolding E_def by code_simp
  from r c2 p2 p1 p0 show ?thesis unfolding H_def E_def by (intro conjI)
qed

subsection \<open>The logged trace\<close>

inductive_cases json_of_PRefE: "json_of h (PRef a) j"
inductive_cases json_of_PFloatE: "json_of h (PFloat r) j"

lemma dumps_sound:
  "dumps n h ms x = Inr j \<Longrightarrow> json_of h x j"
  "dumps_list n h ms xs = Inr js \<Longrightarrow> list_all2 (json_of h) xs js"
  "dumps_dict n h ms kvs = Inr kjs \<Longrightarrow>
     map fst kjs = map fst kvs \<and> list_all2 (json_of h) (map snd kvs) (map snd kjs)"
proof (induction n h ms x and n h ms xs and n h ms kvs arbitrary: j and js and kjs
       rule: dumps_dumps_list_dumps_dict.induct)
  case (8 n h ms a)
  show ?case
  proof (cases "deref h a")
    case None
    with "8.prems" show ?thesis by (simp split: if_splits)
  next
    case (Some ob)
    show ?thesis
    proof (cases ob)
      case (PList xs)
      with "8.prems" Some obtain js where js: "dumps_list n h (a # ms) xs = Inr js" "j = JArr js"
        and a: "a \<notin> set ms"
        by (auto split: if_splits sum.splits)
      from "8.IH"(1)[OF a Some PList js(1)] have "list_all2 (json_of h) xs js" .
      with Some PList js(2) show ?thesis by (auto intro: json_of.jarr)
    next
      case (PDict kvs)
      with "8.prems" Some obtain kjs where kjs: "dumps_dict n h (a # ms) kvs = Inr kjs" "j = JObj kjs"
        and a: "a \<notin> set ms"
        by (auto split: if_splits sum.splits)
      from "8.IH"(2)[OF a Some PDict kjs(1)]
      have "map fst kjs = map fst kvs" "list_all2 (json_of h) (map snd kvs) (map snd kjs)"
        by simp_all
      with Some PDict kjs(2) show ?thesis by (auto intro: json_of.jobj)
    qed
  qed
next
  case (10 n h ms x xs)
  from "10.prems" obtain j js' where
    "dumps n h ms x = Inr j" "dumps_list n h ms xs = Inr js'" "js = j # js'"
    by (auto split: sum.splits)
  with "10.IH" show ?case by auto
next
  case (12 n h ms k v kvs)
  from "12.prems" obtain j kjs' where
    "dumps n h ms v = Inr j" "dumps_dict n h ms kvs = Inr kjs'" "kjs = (k, j) # kjs'"
    by (auto split: sum.splits)
  with "12.IH" show ?case by auto
qed (auto intro: json_of.intros)

lemma deref_append: "deref h a = Some ob \<Longrightarrow> deref (h @ ext) a = Some ob"
  by (auto simp: deref_def nth_append split: if_splits)

lemma iterate_append: "iterate h v = Inr xs \<Longrightarrow> iterate (h @ ext) v = Inr xs"
  by (cases v) (auto simp: iterate_def dest: deref_append[of h _ _ ext]
      split: option.splits pyobj.splits)

lemma getitem_str_append: "getitem_str h v k = Inr x \<Longrightarrow> getitem_str (h @ ext) v k = Inr x"
  by (cases v) (auto simp: getitem_str_def dest: deref_append[of h _ _ ext]
      split: option.splits pyobj.splits)

lemma getitem_0_append: "getitem_0 h v = Inr x \<Longrightarrow> getitem_0 (h @ ext) v = Inr x"
  by (cases v) (auto simp: getitem_0_def dest: deref_append[of h _ _ ext]
      split: option.splits pyobj.splits list.splits)

lemma top_message_append: "top_message h r = Inr x \<Longrightarrow> top_message (h @ ext) r = Inr x"
  by (auto simp: top_message_def seq_def getitem_str_append getitem_0_append
      split: sum.splits)

lemma pair_of_append: "pair_of h v = Inr p \<Longrightarrow> pair_of (h @ ext) v = Inr p"
proof -
  assume a: "pair_of h v = Inr p"
  then obtain xs where "iterate h v = Inr xs"
    by (auto simp: pair_of_def split: sum.splits)
  from iterate_append[OF this, of ext] this a show ?thesis
    by (simp add: pair_of_def)
qed

lemma pairs_of_append: "pairs_of h xs acc = Inr kvs \<Longrightarrow> pairs_of (h @ ext) xs acc = Inr kvs"
proof (induction xs arbitrary: acc)
  case Nil
  then show ?case by simp
next
  case (Cons x xs)
  from Cons.prems obtain k v where p: "pair_of h x = Inr (k, v)"
    and r: "pairs_of h xs (dict_set acc k v) = Inr kvs"
    by (auto split: sum.splits)
  from pair_of_append[OF p, of ext] Cons.IH[OF r] show ?case by simp
qed

lemma dict_items_append: "dict_items h v = Inr kvs \<Longrightarrow> dict_items (h @ ext) v = Inr kvs"
  by (cases v) (auto simp: dict_items_def pairs_of_append dest: deref_append[of h _ _ ext]
      split: option.splits pyobj.splits)

lemma trace_of_Inr:
  assumes "trace_of h msgs r = Inr (t, h3)"
  obtains xs top kvs where
    "iterate h msgs = Inr xs" "top_message h r = Inr top" "dict_items h top = Inr kvs"
    "t = PRef (Suc (length h))" "h3 = h @ [PDict kvs, PList (xs @ [PRef (length h)])]"
  using assms
  by (auto simp: trace_of_def seq_def dict_of_def split: sum.splits)


lemma json_of_list:
  assumes "json_of H (PRef a) jt" and "deref H a = Some (PList xs)"
  shows "\<exists>js. jt = JArr js \<and> list_all2 (json_of H) xs js"
  using assms by (auto elim: json_of_PRefE)

lemma json_of_dict:
  assumes "json_of H (PRef a) jd" and "deref H a = Some (PDict kvs)"
  shows "\<exists>kjs. jd = JObj kjs \<and> map fst kjs = map fst kvs \<and>
           list_all2 (json_of H) (map snd kvs) (map snd kjs)"
  using assms by (auto elim: json_of_PRefE)

lemma json_of_record:
  assumes "json_of H (PRef a) line"
    and "deref H a = Some (PDict [(''timestamp'', PFloat now), (''messages'', t)])"
  shows "\<exists>jt. line = JObj [(''timestamp'', JFloat now), (''messages'', jt)] \<and> json_of H t jt"
proof -
  from json_of_dict[OF assms] obtain kjs where
    l: "line = JObj kjs" and k: "map fst kjs = [''timestamp'', ''messages'']"
    and v: "list_all2 (json_of H) [PFloat now, t] (map snd kjs)"
    by auto
  from k obtain j1 j2 where kjs: "kjs = [(''timestamp'', j1), (''messages'', j2)]"
    by (auto simp: map_eq_Cons_conv)
  with v have j: "json_of H (PFloat now) j1" "json_of H t j2" by simp_all
  from j(1) have "j1 = JFloat now" by (rule json_of_PFloatE)
  with kjs j(2) l show ?thesis by simp
qed

text \<open>
  Claim C3. When the call returns, the record it has logged is an object with the fields
  \<^verbatim>\<open>timestamp\<close> and \<^verbatim>\<open>messages\<close>, and \<^verbatim>\<open>messages\<close> is an array made of the JSON values of
  the elements of the forwarded list, in order, followed by one object. The forwarded list
  is the caller's when there is no hook and what the hook returned on the copy when there
  is one; it is what the underlying call received. The object appended has the keys of the
  message of the first choice of the response, as \<^verbatim>\<open>dict\<close> gives them, each with the JSON
  value of what the message holds there: its role and its content among them.
\<close>

theorem create_and_log_trace:
  assumes "fst (create_and_log e hk messages kw w) = Inr r"
  shows "\<exists>fwd xs top kvs ts js kjs.
           fst (edit_messages e hk messages (py w)) = Inr fwd \<and>
           (hk = None \<longrightarrow> fwd = messages) \<and>
           (\<forall>f. hk = Some f \<longrightarrow>
              (\<exists>c memo h1. deepcopy (rlimit e) messages (Map.empty, heap (py w)) = Inr (c, memo, h1) \<and>
                 fst (f c ((py w)\<lparr>heap := h1\<rparr>)) = Inr fwd)) \<and>
           fst (original_chat_completion_create e fwd kw
                  (snd (edit_messages e hk messages (py w)))) = Inr r \<and>
           iterate (heap (py (snd (create_and_log e hk messages kw w)))) fwd = Inr xs \<and>
           top_message (heap (py (snd (create_and_log e hk messages kw w)))) r = Inr top \<and>
           dict_items (heap (py (snd (create_and_log e hk messages kw w)))) top = Inr kvs \<and>
           last (emitted (snd (create_and_log e hk messages kw w))) =
             JObj [(''timestamp'', ts), (''messages'', JArr (js @ [JObj kjs]))] \<and>
           list_all2 (json_of (heap (py (snd (create_and_log e hk messages kw w))))) xs js \<and>
           map fst kjs = map fst kvs \<and>
           list_all2 (json_of (heap (py (snd (create_and_log e hk messages kw w)))))
             (map snd kvs) (map snd kjs)"
proof -
  from assms obtain msgs m1 m2 t h3 line where
    a: "edit_messages e hk messages (py w) = (Inr msgs, m1)"
    and o: "original_chat_completion_create e msgs kw m1 = (Inr r, m2)"
    and tr: "trace_of (heap m2) msgs r = Inr (t, h3)"
    and d: "fst (json_dumps_record e h3 (clock m1) t) = Inr line"
    and s: "snd (create_and_log e hk messages kw w) =
       logger_info line (w\<lparr>py := m2\<lparr>heap := snd (json_dumps_record e h3 (clock m1) t)\<rparr>\<rparr>)"
    by (rule create_and_log_Inr)
  from tr obtain xs top kvs where
    it: "iterate (heap m2) msgs = Inr xs" and tm: "top_message (heap m2) r = Inr top"
    and di: "dict_items (heap m2) top = Inr kvs"
    and t: "t = PRef (Suc (length (heap m2)))"
    and h3: "h3 = heap m2 @ [PDict kvs, PList (xs @ [PRef (length (heap m2))])]"
    by (rule trace_of_Inr)
  define H where "H = heap (py (snd (create_and_log e hk messages kw w)))"
  have H: "H = heap m2 @ [PDict kvs, PList (xs @ [PRef (length (heap m2))]),
      PDict [(''timestamp'', PFloat (clock m1)), (''messages'', t)]]"
    unfolding H_def s by (simp add: py_logger_info json_dumps_record_heap h3)
  have dH: "dumps (rlimit e) H [] (PRef (length h3)) = Inr line"
    using d unfolding H h3 by (simp add: json_dumps_record_def Let_def)
  have r0: "deref H (length h3) = Some (PDict [(''timestamp'', PFloat (clock m1)), (''messages'', t)])"
    unfolding H h3 by (simp add: deref_def nth_append)
  have r1: "deref H (Suc (length (heap m2))) = Some (PList (xs @ [PRef (length (heap m2))]))"
    unfolding H by (simp add: deref_def nth_append)
  have r2: "deref H (length (heap m2)) = Some (PDict kvs)"
    unfolding H by (simp add: deref_def nth_append)
  from json_of_record[OF dumps_sound(1)[OF dH] r0] obtain jt where
    line: "line = JObj [(''timestamp'', JFloat (clock m1)), (''messages'', jt)]"
    and jt: "json_of H t jt" by blast
  from json_of_list[OF jt[unfolded t] r1] obtain js' where
    js': "jt = JArr js'" "list_all2 (json_of H) (xs @ [PRef (length (heap m2))]) js'" by blast
  from js'(2) obtain js jd where
    js: "js' = js @ [jd]" "list_all2 (json_of H) xs js" "json_of H (PRef (length (heap m2))) jd"
    by (auto simp: list_all2_append1 list_all2_Cons1)
  from json_of_dict[OF js(3) r2] obtain kjs where
    kjs: "jd = JObj kjs" "map fst kjs = map fst kvs"
      "list_all2 (json_of H) (map snd kvs) (map snd kjs)" by blast
  have e1: "fst (edit_messages e hk messages (py w)) = Inr msgs" using a by simp
  have e2: "hk = None \<longrightarrow> msgs = messages" using a by (auto simp: edit_messages_def)
  have e3: "\<forall>f. hk = Some f \<longrightarrow>
      (\<exists>c memo h1. deepcopy (rlimit e) messages (Map.empty, heap (py w)) = Inr (c, memo, h1) \<and>
         fst (f c ((py w)\<lparr>heap := h1\<rparr>)) = Inr msgs)"
    using a by (auto simp: edit_messages_def split: sum.splits)
  have e4: "fst (original_chat_completion_create e msgs kw
      (snd (edit_messages e hk messages (py w)))) = Inr r"
    using a o by simp
  have e5: "iterate H msgs = Inr xs" unfolding H by (rule iterate_append[OF it])
  have e6: "top_message H r = Inr top" unfolding H by (rule top_message_append[OF tm])
  have e7: "dict_items H top = Inr kvs" unfolding H by (rule dict_items_append[OF di])
  have e8: "last (emitted (snd (create_and_log e hk messages kw w))) =
      JObj [(''timestamp'', JFloat (clock m1)), (''messages'', JArr (js @ [JObj kjs]))]"
    unfolding s by (simp add: emitted_logger_info line js'(1) js(1) kjs(1))
  from e1 e2 e3 e4 e5 e6 e7 e8 js(2) kjs(2,3) show ?thesis
    unfolding H_def by blast
qed


text \<open>A value has at most one JSON value.\<close>

lemma list_all2_unique:
  "list_all2 (\<lambda>x j. P x j \<and> (\<forall>j'. P x j' \<longrightarrow> j = j')) xs js \<Longrightarrow> list_all2 P xs js' \<Longrightarrow> js = js'"
proof (induction xs arbitrary: js js')
  case Nil
  then show ?case by simp
next
  case (Cons x xs)
  then show ?case by (auto simp: list_all2_Cons1)
qed

lemma json_of_unique: "json_of h v j \<Longrightarrow> json_of h v j' \<Longrightarrow> j = j'"
proof (induction arbitrary: j' rule: json_of.induct)
  case (jarr a xs js)
  from json_of_list[OF jarr.prems jarr.hyps(1)] obtain js' where
    "j' = JArr js'" "list_all2 (json_of h) xs js'" by blast
  with list_all2_unique[OF jarr.IH] show ?case by simp
next
  case (jobj a kvs kjs)
  from json_of_dict[OF jobj.prems jobj.hyps(1)] obtain kjs' where
    k: "j' = JObj kjs'" "map fst kjs' = map fst kvs"
      "list_all2 (json_of h) (map snd kvs) (map snd kjs')" by blast
  from list_all2_unique[OF jobj.IH k(3)] have "map snd kjs = map snd kjs'" .
  with jobj.hyps(2) k(2) have "kjs = kjs'" by (simp add: pair_list_eqI)
  with k(1) show ?case by simp
qed (auto elim: json_of.cases)

text \<open>
  No hook, the messages \<^verbatim>\<open>[{"role": "user", "content": "hi"}]\<close> and the reply
  \<^verbatim>\<open>{"role": "assistant", "content": "hello"}\<close>: the record holds the two, in this order.
\<close>

theorem create_and_log_trace_witness:
  "fst (create_and_log (sample_env (sample_api (PStr ''hello''))) None (PRef 1) [] sample_world) =
     Inr (PRef 5) \<and>
   emitted (snd (create_and_log (sample_env (sample_api (PStr ''hello''))) None (PRef 1) []
     sample_world)) =
     [JObj [(''timestamp'', JFloat 5),
            (''messages'',
             JArr [JObj [(''role'', JStr ''user''), (''content'', JStr ''hi'')],
                   JObj [(''role'', JStr ''assistant''), (''content'', JStr ''hello'')]])]] \<and>
   (\<exists>xs top kvs ts js kjs.
      iterate (heap (py (snd (create_and_log (sample_env (sample_api (PStr ''hello''))) None
          (PRef 1) [] sample_world)))) (PRef 1) = Inr xs \<and>
      top_message (heap (py (snd (create_and_log (sample_env (sample_api (PStr ''hello''))) None
          (PRef 1) [] sample_world)))) (PRef 5) = Inr top \<and>
      dict_items (heap (py (snd (create_and_log (sample_env (sample_api (PStr ''hello''))) None
          (PRef 1) [] sample_world)))) top = Inr kvs \<and>
      last (emitted (snd (create_and_log (sample_env (sample_api (PStr ''hello''))) None
          (PRef 1) [] sample_world))) =
        JObj [(''timestamp'', ts), (''messages'', JArr (js @ [JObj kjs]))] \<and>
      list_all2 (json_of (heap (py (snd (create_and_log (sample_env (sample_api (PStr ''hello'')))
          None (PRef 1) [] sample_world))))) xs js \<and>
      map fst kjs = map fst kvs \<and>
      list_all2 (json_of (heap (py (snd (create_and_log (sample_env (sample_api (PStr ''hello'')))
          None (PRef 1) [] sample_world))))) (map snd kvs) (map snd kjs))"
proof -
  have a: "fst (create_and_log (sample_env (sample_api (PStr ''hello''))) None (PRef 1) []
      sample_world) = Inr (PRef 5)"
    by code_simp
  have b: "emitted (snd (create_and_log (sample_env (sample_api (PStr ''hello''))) None (PRef 1) []
     sample_world)) =
     [JObj [(''timestamp'', JFloat 5),
            (''messages'',
             JArr [JObj [(''role'', JStr ''user''), (''content'', JStr ''hi'')],
                   JObj [(''role'', JStr ''assistant''), (''content'', JStr ''hello'')]])]]"
    by code_simp
  from create_and_log_trace[OF a] have c: "\<exists>xs top kvs ts js kjs.
      iterate (heap (py (snd (create_and_log (sample_env (sample_api (PStr ''hello''))) None
          (PRef 1) [] sample_world)))) (PRef 1) = Inr xs \<and>
      top_message (heap (py (snd (create_and_log (sample_env (sample_api (PStr ''hello''))) None
          (PRef 1) [] sample_world)))) (PRef 5) = Inr top \<and>
      dict_items (heap (py (snd (create_and_log (sample_env (sample_api (PStr ''hello''))) None
          (PRef 1) [] sample_world)))) top = Inr kvs \<and>
      last (emitted (snd (create_and_log (sample_env (sample_api (PStr ''hello''))) None
          (PRef 1) [] sample_world))) =
        JObj [(''timestamp'', ts), (''messages'', JArr (js @ [JObj kjs]))] \<and>
      list_all2 (json_of (heap (py (snd (create_and_log (sample_env (sample_api (PStr ''hello'')))
          None (PRef 1) [] sample_world))))) xs js \<and>
      map fst kjs = map fst kvs \<and>
      list_all2 (json_of (heap (py (snd (create_and_log (sample_env (sample_api (PStr ''hello'')))
          None (PRef 1) [] sample_world))))) (map snd kvs) (map snd kjs)"
    by blast
  from a b c show ?thesis by (intro conjI)
qed

end
